theory Spec2Isabelle
  imports Complex_Main
begin

section \<open>Data model\<close>

text \<open>
  The two scripts \<^verbatim>\<open>goldbach_rigid_scan.py\<close> and \<^verbatim>\<open>export_data.py\<close> work on
  Python integers (modelled as \<^typ>\<open>int\<close>), on a NumPy \<^verbatim>\<open>int64\<close> array of radicals
  (an \<^typ>\<open>int list\<close> whose in-place multiplication wraps at 64 bits), on a
  \<^verbatim>\<open>bytearray\<close> of 0/1 primality flags (a \<^typ>\<open>bool list\<close>, the byte read through its
  truth value) and on Python floats. Floats are idealised as \<^typ>\<open>real\<close>: \<^verbatim>\<open>math.log\<close>
  is \<^const>\<open>ln\<close>, and \<^verbatim>\<open>float('inf')\<close> is a constructor of its own.
\<close>

datatype error = IndexError | ValueError | ZeroDivisionError

datatype category = Goldbach | Mixed | Composite

datatype pyfloat = Finite real | Infinity

record row =
  summand_p :: int
  summand_q :: int
  rad_odd_p :: int
  rad_odd_q :: int
  conductor_proxy :: int
  rho :: real
  category :: category

text \<open>
  A result is \<open>None\<close> when a \<^verbatim>\<open>while\<close> loop never ends, \<open>Some (Inl e)\<close> when the
  call raises \<open>e\<close>, and \<open>Some (Inr v)\<close> when it returns \<open>v\<close>.
\<close>

type_synonym 'a result = "(error + 'a) option"

definition bind_result :: "'a result \<Rightarrow> ('a \<Rightarrow> 'b result) \<Rightarrow> 'b result" where
  "bind_result m f =
     (case m of None \<Rightarrow> None | Some (Inl e) \<Rightarrow> Some (Inl e) | Some (Inr v) \<Rightarrow> f v)"

text \<open>Indexing of a NumPy array or a bytearray: a negative index counts from the end.\<close>

definition py_get :: "'a list \<Rightarrow> int \<Rightarrow> error + 'a" where
  "py_get xs i =
     (if 0 \<le> i \<and> i < int (length xs) then Inr (xs ! nat i)
      else if i < 0 \<and> - int (length xs) \<le> i then Inr (xs ! nat (int (length xs) + i))
      else Inl IndexError)"

text \<open>\<^verbatim>\<open>range(start, stop, step)\<close> for a positive step (every call site has one).\<close>

definition py_range :: "int \<Rightarrow> int \<Rightarrow> int \<Rightarrow> int list" where
  "py_range start stop step = map (\<lambda>k. start + k * step) [0..(stop - start - 1) div step]"

text \<open>The value an \<^verbatim>\<open>int64\<close> cell holds after an arithmetic result \<open>x\<close> is stored.\<close>

definition wrap64 :: "int \<Rightarrow> int" where
  "wrap64 x = (x + 2 ^ 63) mod 2 ^ 64 - 2 ^ 63"

section \<open>goldbach\_rigid\_scan.py\<close>

subsection \<open>sieve\_radicals\<close>

text \<open>
  The body of the inner loop, for one \<open>j\<close> of \<^verbatim>\<open>range(i, limit + 1, i)\<close>:
  \<^verbatim>\<open>if j != i: is_prime[j] = 0\<close> and \<^verbatim>\<open>rads[j] *= i\<close>. Every such \<open>j\<close> is at most
  \<open>limit\<close>, so both writes are in range.
\<close>

definition mark_multiple :: "int \<Rightarrow> int \<Rightarrow> int list \<times> bool list \<Rightarrow> int list \<times> bool list" where
  "mark_multiple i j st =
     (let rads = fst st; is_prime = snd st
      in (rads[nat j := wrap64 (rads ! nat j * i)],
          if j \<noteq> i then is_prime[nat j := False] else is_prime))"

definition sieve_step :: "int \<Rightarrow> int \<Rightarrow> int list \<times> bool list \<Rightarrow> int list \<times> bool list" where
  "sieve_step limit i st =
     (if snd st ! nat i then fold (mark_multiple i) (py_range i (limit + 1) i) st else st)"

text \<open>
  \<^verbatim>\<open>np.ones(limit + 1)\<close> raises ValueError for a negative length; with \<open>limit + 1\<close> equal
  to 0 or 1 the writes \<^verbatim>\<open>is_prime[0] = is_prime[1] = 0\<close> raise IndexError.
\<close>

definition sieve_radicals :: "int \<Rightarrow> error + int list \<times> int set" where
  "sieve_radicals limit =
     (if limit + 1 < 0 then Inl ValueError
      else if limit + 1 < 2 then Inl IndexError
      else
        let rads = replicate (nat (limit + 1)) (1::int);
            is_prime = (replicate (nat (limit + 1)) True)[0 := False, 1 := False];
            st = fold (sieve_step limit) [2..limit] (rads, is_prime)
        in Inr (fst st, set (filter (\<lambda>i. snd st ! nat i) [2..limit])))"

subsection \<open>odd\_rad\<close>

text \<open>The loop \<^verbatim>\<open>while t % d == 0: t //= d\<close>; it does not end when \<open>t = 0\<close>.\<close>

partial_function (option) divide_out :: "int \<Rightarrow> int \<Rightarrow> int option" where
  "divide_out d t = (if t mod d = 0 then divide_out d (t div d) else Some t)"

definition odd_rad :: "int \<Rightarrow> int list \<Rightarrow> int result" where
  "odd_rad x rads =
     (case py_get rads x of
        Inl e \<Rightarrow> Some (Inl e)
      | Inr r0 \<Rightarrow>
          (case divide_out 2 r0 of
             None \<Rightarrow> None
           | Some r \<Rightarrow> Some (Inr (if r > 0 then r else 1))))"

subsection \<open>scan\_N\<close>

text \<open>
  \<^verbatim>\<open>math.log(cond) / math.log(N) if cond > 1 else 0.0\<close>. \<^verbatim>\<open>math.log\<close> raises
  ValueError on an argument that is not positive, and the float division raises
  ZeroDivisionError when \<^verbatim>\<open>math.log(N)\<close> is zero.
\<close>

definition rho_of :: "int \<Rightarrow> int \<Rightarrow> error + real" where
  "rho_of N cond =
     (if cond > 1 then
        (if N \<le> 0 then Inl ValueError
         else if N = 1 then Inl ZeroDivisionError
         else Inr (ln (real_of_int cond) / ln (real_of_int N)))
      else Inr 0)"

definition scan_row :: "int \<Rightarrow> int list \<Rightarrow> int set \<Rightarrow> int \<Rightarrow> row result" where
  "scan_row N rads primes_set p =
     (let q = N - p in
      bind_result (odd_rad p rads) (\<lambda>rp.
      bind_result (odd_rad q rads) (\<lambda>rq.
      bind_result (odd_rad (N div 2) rads) (\<lambda>rM.
        let base = rp * rq * rM * rM;
            cond = base * base
        in bind_result (Some (rho_of N cond)) (\<lambda>rho_v.
        let p_is_prime = (p \<in> primes_set);
            q_is_prime = (q \<in> primes_set);
            cat = (if p_is_prime \<and> q_is_prime then Goldbach
                   else if p_is_prime \<or> q_is_prime then Mixed
                   else Composite)
        in Some (Inr \<lparr>summand_p = p, summand_q = q, rad_odd_p = rp, rad_odd_q = rq,
                      conductor_proxy = cond, rho = rho_v, category = cat\<rparr>))))))"

fun scan_loop :: "int \<Rightarrow> int list \<Rightarrow> int set \<Rightarrow> int list \<Rightarrow> row list result" where
  "scan_loop N rads primes_set [] = Some (Inr [])"
| "scan_loop N rads primes_set (p # ps) =
     (if N - p \<le> 1 then scan_loop N rads primes_set ps
      else bind_result (scan_row N rads primes_set p) (\<lambda>r.
           bind_result (scan_loop N rads primes_set ps) (\<lambda>rs. Some (Inr (r # rs)))))"

text \<open>The loop of \<^verbatim>\<open>scan_N\<close> over \<^verbatim>\<open>range(3, N // 2 + 1)\<close>, rows in the order appended.\<close>

definition scan_N :: "int \<Rightarrow> int list \<Rightarrow> int set \<Rightarrow> row list result" where
  "scan_N N rads primes_set = scan_loop N rads primes_set [3..N div 2]"

subsection \<open>Statistics of the report for one N\<close>

text \<open>
  Lines 93 to 124: the rows of each class, the Goldbach and Composite ones sorted by
  \<open>rho\<close> (a stable sort), and the lists of \<open>rho\<close> values the statistics are taken of.
  The Goldbach list is taken as it is; the other two keep the positive values only.
\<close>

definition gb_rhos :: "row list \<Rightarrow> real list" where
  "gb_rhos rows = map rho (sort_key rho (filter (\<lambda>r. category r = Goldbach) rows))"

definition mix_rhos :: "row list \<Rightarrow> real list" where
  "mix_rhos rows = filter (\<lambda>x. x > 0) (map rho (filter (\<lambda>r. category r = Mixed) rows))"

definition comp_rhos :: "row list \<Rightarrow> real list" where
  "comp_rhos rows =
     filter (\<lambda>x. x > 0) (map rho (sort_key rho (filter (\<lambda>r. category r = Composite) rows)))"

definition class_rhos :: "category \<Rightarrow> row list \<Rightarrow> real list" where
  "class_rhos c rows =
     (case c of Goldbach \<Rightarrow> gb_rhos rows | Mixed \<Rightarrow> mix_rhos rows | Composite \<Rightarrow> comp_rhos rows)"

record class_stats =
  stat_min :: real
  stat_mean :: real
  stat_max :: real
  stat_bandwidth :: real

text \<open>
  \<^verbatim>\<open>min\<close>, \<^verbatim>\<open>max\<close>, \<^verbatim>\<open>np.mean\<close> and \<^verbatim>\<open>max - min\<close> of one list; \<^verbatim>\<open>min\<close> of an empty
  list raises ValueError, and it is evaluated first.
\<close>

definition summarize :: "real list \<Rightarrow> error + class_stats" where
  "summarize rhos =
     (if rhos = [] then Inl ValueError
      else Inr \<lparr>stat_min = Min (set rhos),
                stat_mean = sum_list rhos / real (length rhos),
                stat_max = Max (set rhos),
                stat_bandwidth = Max (set rhos) - Min (set rhos)\<rparr>)"

subsection \<open>The line of the series table for one k\<close>

record series_stats =
  num_goldbach :: nat
  rho_min :: real
  rho_mean :: real
  rho_max :: real
  BW_goldbach :: real
  BW_composite :: real
  ratio :: pyfloat

definition gb_k :: "row list \<Rightarrow> real list" where
  "gb_k rows_k = map rho (filter (\<lambda>r. category r = Goldbach) rows_k)"

definition comp_k :: "row list \<Rightarrow> real list" where
  "comp_k rows_k = map rho (filter (\<lambda>r. category r = Composite \<and> rho r > 0) rows_k)"

definition ratio_scan :: "real \<Rightarrow> real \<Rightarrow> pyfloat" where
  "ratio_scan bw_comp bw_gb = (if bw_gb > 0 then Finite (bw_comp / bw_gb) else Infinity)"

text \<open>
  Lines 220 to 226. The result is \<open>None\<close> when no line is printed, that is when one of
  the two lists is empty.
\<close>

definition series_line :: "(real \<Rightarrow> real \<Rightarrow> pyfloat) \<Rightarrow> real list \<Rightarrow> real list \<Rightarrow> series_stats option" where
  "series_line ratio_fn gbs comps =
     (if gbs \<noteq> [] \<and> comps \<noteq> [] then
        let bw_gb = Max (set gbs) - Min (set gbs);
            bw_comp = Max (set comps) - Min (set comps)
        in Some \<lparr>num_goldbach = length gbs,
                   rho_min = Min (set gbs),
                   rho_mean = sum_list gbs / real (length gbs),
                   rho_max = Max (set gbs),
                   BW_goldbach = bw_gb,
                   BW_composite = bw_comp,
                   ratio = ratio_fn bw_comp bw_gb\<rparr>
      else None)"

definition series_line_scan :: "row list \<Rightarrow> series_stats option" where
  "series_line_scan rows_k = series_line ratio_scan (gb_k rows_k) (comp_k rows_k)"

section \<open>export\_data.py\<close>

subsection \<open>sieve\<close>

text \<open>\<^verbatim>\<open>math.isqrt\<close> on a non-negative argument: the integer square root.\<close>

primrec isqrt_nat :: "nat \<Rightarrow> nat" where
  "isqrt_nat 0 = 0"
| "isqrt_nat (Suc n) = (if (isqrt_nat n + 1) * (isqrt_nat n + 1) \<le> Suc n then isqrt_nat n + 1 else isqrt_nat n)"

definition isqrt :: "int \<Rightarrow> int" where
  "isqrt n = int (isqrt_nat (nat n))"

text \<open>
  \<^verbatim>\<open>is_prime[i*i::i] = bytearray(len(is_prime[i*i::i]))\<close>: every cell of the slice is
  set to 0.
\<close>

definition clear_slice :: "int \<Rightarrow> bool list \<Rightarrow> bool list" where
  "clear_slice i is_prime =
     fold (\<lambda>j xs. xs[nat j := False]) (py_range (i * i) (int (length is_prime)) i) is_prime"

definition sieve_pass :: "int \<Rightarrow> bool list \<Rightarrow> bool list" where
  "sieve_pass i is_prime = (if is_prime ! nat i then clear_slice i is_prime else is_prime)"

text \<open>
  \<^verbatim>\<open>bytearray([1]) * (limit + 1)\<close> is empty when \<open>limit + 1 \<le> 0\<close>; the writes
  \<^verbatim>\<open>is_prime[0] = is_prime[1] = 0\<close> raise IndexError on fewer than two cells.
\<close>

definition sieve :: "int \<Rightarrow> error + bool list" where
  "sieve limit =
     (if limit + 1 < 2 then Inl IndexError
      else Inr (fold sieve_pass [2..isqrt limit]
                  ((replicate (nat (limit + 1)) True)[0 := False, 1 := False])))"

subsection \<open>odd\_radical\<close>

text \<open>The loop \<^verbatim>\<open>while d * d <= temp\<close> of \<^verbatim>\<open>odd_radical\<close>, on the state \<open>(r, temp, d)\<close>.\<close>

partial_function (option) trial_loop :: "int \<Rightarrow> int \<Rightarrow> int \<Rightarrow> (int \<times> int) option" where
  "trial_loop r temp d =
     (if d * d \<le> temp then
        (if temp mod d = 0 then
           Option.bind (divide_out d temp) (\<lambda>temp'. trial_loop (r * d) temp' (d + 2))
         else trial_loop r temp (d + 2))
      else Some (r, temp))"

definition odd_radical :: "int \<Rightarrow> int option" where
  "odd_radical n =
     (if n \<le> 1 then Some 1
      else Option.bind (divide_out 2 n) (\<lambda>temp.
           Option.bind (trial_loop 1 temp 3) (\<lambda>(r, temp').
             Some (if temp' > 1 then r * temp' else r))))"

subsection \<open>The scan of one N\<close>

text \<open>
  The body of the loop of lines 34 to 44 (and of lines 57 to 63, which repeat it) for
  one \<open>p\<close> whose \<open>q\<close> is above 1. The exported \<open>rho\<close> column is rounded to six decimals
  when written; the row here keeps the value before rounding.
\<close>

definition export_row :: "int \<Rightarrow> bool list \<Rightarrow> int \<Rightarrow> row result" where
  "export_row N is_prime p =
     (let q = N - p in
      bind_result (map_option Inr (odd_radical p)) (\<lambda>rp.
      bind_result (map_option Inr (odd_radical q)) (\<lambda>rq.
        let cond = (rp * rq) ^ 2
        in bind_result (Some (rho_of N cond)) (\<lambda>rho_v.
           bind_result (Some (py_get is_prime p)) (\<lambda>pp.
           bind_result (Some (py_get is_prime q)) (\<lambda>qq.
             let typ = (if pp \<and> qq then Goldbach
                        else if \<not> pp \<and> \<not> qq then Composite
                        else Mixed)
             in Some (Inr \<lparr>summand_p = p, summand_q = q, rad_odd_p = rp, rad_odd_q = rq,
                           conductor_proxy = cond, rho = rho_v, category = typ\<rparr>)))))))"

fun export_loop :: "int \<Rightarrow> bool list \<Rightarrow> int list \<Rightarrow> row list result" where
  "export_loop N is_prime [] = Some (Inr [])"
| "export_loop N is_prime (p # ps) =
     (if N - p \<le> 1 then export_loop N is_prime ps
      else bind_result (export_row N is_prime p) (\<lambda>r.
           bind_result (export_loop N is_prime ps) (\<lambda>rs. Some (Inr (r # rs)))))"

definition export_scan :: "int \<Rightarrow> bool list \<Rightarrow> row list result" where
  "export_scan N is_prime = export_loop N is_prime [3..N div 2]"

subsection \<open>The row of the evolution table for one k\<close>

text \<open>
  Lines 64 to 74: \<open>gb_rhos\<close> takes the \<open>rho\<close> of every pair of two primes, \<open>comp_rhos\<close>
  the positive \<open>rho\<close> of every pair of two non-primes; the ratio falls back to 0.
\<close>

definition ratio_export :: "real \<Rightarrow> real \<Rightarrow> pyfloat" where
  "ratio_export bw_comp bw_gb = (if bw_gb > 0 then Finite (bw_comp / bw_gb) else Finite 0)"

definition series_line_export :: "row list \<Rightarrow> series_stats option" where
  "series_line_export rows_k = series_line ratio_export (gb_k rows_k) (comp_k rows_k)"

section \<open>Reference notions\<close>

text \<open>
  A prime is an integer above 1 with no divisor strictly between 1 and itself; the
  radical of \<open>n\<close> is the product of the primes dividing \<open>n\<close> (the empty product 1 for
  \<open>n \<le> 1\<close>), and the odd radical the product of the odd ones.
\<close>

definition is_prime_number :: "int \<Rightarrow> bool" where
  "is_prime_number n \<longleftrightarrow> 1 < n \<and> (\<forall>d\<in>{2..<n}. \<not> d dvd n)"

definition radical :: "int \<Rightarrow> int" where
  "radical n = \<Prod>{p \<in> {2..n}. is_prime_number p \<and> p dvd n}"

definition odd_radical_of :: "int \<Rightarrow> int" where
  "odd_radical_of n = \<Prod>{p \<in> {3..n}. is_prime_number p \<and> p dvd n}"

section \<open>Invariants of the loops\<close>

definition rad_upto :: "int \<Rightarrow> int \<Rightarrow> int" where
  "rad_upto m n = \<Prod>{p \<in> {2..n}. p < m \<and> is_prime_number p \<and> p dvd n}"

definition sieve_inv :: "int \<Rightarrow> int \<Rightarrow> int list \<times> bool list \<Rightarrow> bool" where
  "sieve_inv limit m st \<longleftrightarrow>
     length (fst st) = nat (limit + 1) \<and> length (snd st) = nat (limit + 1) \<and>
     (\<forall>n. 0 \<le> n \<and> n \<le> limit \<longrightarrow>
        fst st ! nat n = rad_upto m n \<and>
        (snd st ! nat n \<longleftrightarrow> 2 \<le> n \<and> (\<forall>p. 2 \<le> p \<and> p < m \<and> is_prime_number p \<and> p dvd n \<longrightarrow> p = n)))"

definition trial_inv :: "int \<Rightarrow> int \<Rightarrow> bool" where
  "trial_inv temp d \<longleftrightarrow> 3 \<le> d \<and> \<not> 2 dvd d \<and> 1 \<le> temp
      \<and> (\<forall>p. is_prime_number p \<and> p dvd temp \<longrightarrow> d \<le> p)"

definition adequate :: "int \<Rightarrow> int list \<Rightarrow> bool" where
  "adequate limit rads \<longleftrightarrow> length rads = nat (limit + 1)
      \<and> (\<forall>n. 0 \<le> n \<and> n \<le> limit \<longrightarrow> rads ! nat n = radical n)"

definition classify :: "int \<Rightarrow> int \<Rightarrow> category" where
  "classify p q =
     (if is_prime_number p \<and> is_prime_number q then Goldbach
      else if is_prime_number p \<or> is_prime_number q then Mixed
      else Composite)"

definition rho_value :: "int \<Rightarrow> int \<Rightarrow> real" where
  "rho_value N cond = (if cond > 1 then ln (real_of_int cond) / ln (real_of_int N) else 0)"

definition scan_row_of :: "int \<Rightarrow> int \<Rightarrow> row" where
  "scan_row_of N p =
     (let q = N - p;
          base = odd_radical_of p * odd_radical_of q * odd_radical_of (N div 2) * odd_radical_of (N div 2);
          cond = base * base
      in \<lparr>summand_p = p, summand_q = q,
          rad_odd_p = odd_radical_of p, rad_odd_q = odd_radical_of q,
          conductor_proxy = cond, rho = rho_value N cond, category = classify p q\<rparr>)"

definition export_row_of :: "int \<Rightarrow> int \<Rightarrow> row" where
  "export_row_of N p =
     (let q = N - p;
          cond = (odd_radical_of p * odd_radical_of q) ^ 2
      in \<lparr>summand_p = p, summand_q = q,
          rad_odd_p = odd_radical_of p, rad_odd_q = odd_radical_of q,
          conductor_proxy = cond, rho = rho_value N cond, category = classify p q\<rparr>)"

definition flags_adequate :: "int \<Rightarrow> bool list \<Rightarrow> bool" where
  "flags_adequate limit tbl \<longleftrightarrow> length tbl = nat (limit + 1)
      \<and> (\<forall>n. 0 \<le> n \<and> n \<le> limit \<longrightarrow> tbl ! nat n = is_prime_number n)"

definition flags_inv :: "int \<Rightarrow> int \<Rightarrow> bool list \<Rightarrow> bool" where
  "flags_inv limit m tbl \<longleftrightarrow> length tbl = nat (limit + 1) \<and>
     (\<forall>n. 0 \<le> n \<and> n \<le> limit \<longrightarrow>
        (tbl ! nat n \<longleftrightarrow> 2 \<le> n \<and> \<not> (\<exists>i. 2 \<le> i \<and> i < m \<and> is_prime_number i \<and> i dvd n \<and> i * i \<le> n)))"

section \<open>Primes and radicals\<close>

lemma prime_ge2: "is_prime_number p \<Longrightarrow> 2 \<le> p"
  by (simp add: is_prime_number_def)

lemma prime_divisor_nat:
  "2 \<le> int n \<Longrightarrow> \<exists>p. is_prime_number p \<and> p dvd int n \<and> p \<le> int n"
proof (induction n rule: less_induct)
  case (less n)
  show ?case
  proof (cases "is_prime_number (int n)")
    case True
    then show ?thesis by auto
  next
    case False
    with less.prems obtain d where d: "2 \<le> d" "d < int n" "d dvd int n"
      by (auto simp: is_prime_number_def)
    then have "nat d < n" "2 \<le> int (nat d)" by auto
    from less.IH[OF this] obtain p where "is_prime_number p" "p dvd int (nat d)" "p \<le> int (nat d)"
      by blast
    with d show ?thesis
      by (auto intro!: exI[of _ p] elim: dvd_trans)
  qed
qed

lemma prime_divisor: "2 \<le> n \<Longrightarrow> \<exists>p. is_prime_number p \<and> p dvd n \<and> p \<le> n"
  using prime_divisor_nat[of "nat n"] by auto

lemma prime_coprime:
  assumes "is_prime_number p" "\<not> p dvd a"
  shows "coprime p a"
proof -
  let ?g = "gcd p a"
  have p: "2 \<le> p" using assms(1) by (rule prime_ge2)
  have g: "?g dvd p" "?g dvd a" "0 \<le> ?g" by simp_all
  have "?g \<noteq> 0" using p by auto
  moreover have "?g \<le> p" using g(1) p by (intro zdvd_imp_le) auto
  moreover have "?g \<noteq> p" using g(2) assms(2) by metis
  moreover have "\<not> (2 \<le> ?g \<and> ?g < p)"
    using assms(1) g(1) by (auto simp: is_prime_number_def)
  ultimately have "?g = 1" using g(3) by linarith
  then show ?thesis by (simp add: coprime_iff_gcd_eq_1)
qed

lemma prime_dvd_mult:
  assumes "is_prime_number p" "p dvd a * b"
  shows "p dvd a \<or> p dvd b"
proof (cases "p dvd a")
  case False
  then have "coprime p a" using assms(1) by (rule prime_coprime[rotated])
  then show ?thesis using assms(2) by (simp add: coprime_dvd_mult_right_iff)
qed simp

lemma prime_dvd_prime:
  assumes "is_prime_number p" "is_prime_number q" "p dvd q"
  shows "p = q"
proof -
  have "2 \<le> p" "2 \<le> q" using assms by (auto dest: prime_ge2)
  then have "p \<le> q" using assms(3) by (intro zdvd_imp_le) auto
  then show ?thesis using assms \<open>2 \<le> p\<close> by (auto simp: is_prime_number_def)
qed

lemma prime_dvd_prod:
  assumes "finite F" "is_prime_number p" "p dvd \<Prod>F" "\<forall>q\<in>F. is_prime_number q"
  shows "p \<in> F"
  using assms
proof (induction F)
  case empty
  then show ?case by (auto dest: prime_ge2)
next
  case (insert x F)
  then have "p dvd x * \<Prod>F" by simp
  then have "p dvd x \<or> p dvd \<Prod>F" using insert.prems(1) by (rule prime_dvd_mult[rotated])
  then show ?case using insert by (auto dest: prime_dvd_prime)
qed

lemma prod_primes_dvd:
  assumes "finite F" "\<forall>q\<in>F. is_prime_number q \<and> q dvd n"
  shows "\<Prod>F dvd n"
  using assms
proof (induction F)
  case empty
  then show ?case by simp
next
  case (insert x F)
  have "\<not> x dvd \<Prod>F"
    using prime_dvd_prod[of F x] insert by auto
  then have "coprime x (\<Prod>F)" using insert.prems by (intro prime_coprime) auto
  moreover have "x dvd n" "\<Prod>F dvd n" using insert by auto
  ultimately have "x * \<Prod>F dvd n" by (rule divides_mult[rotated 2])
  then show ?case using insert by simp
qed

lemma set_py_range:
  assumes "0 < step"
  shows "set (py_range a b step) = {j. a \<le> j \<and> j < b \<and> step dvd (j - a)}"
proof (rule set_eqI, rule iffI)
  fix j assume "j \<in> set (py_range a b step)"
  then obtain k where k: "0 \<le> k" "k \<le> (b - a - 1) div step" "j = a + k * step"
    by (auto simp: py_range_def)
  have "k * step \<le> (b - a - 1) div step * step" using k(2) assms by simp
  also have "\<dots> \<le> b - a - 1"
  proof -
    have "(b - a - 1) div step * step = (b - a - 1) - (b - a - 1) mod step"
      by (simp add: minus_mod_eq_div_mult)
    moreover have "0 \<le> (b - a - 1) mod step" using assms by simp
    ultimately show ?thesis by simp
  qed
  finally have "j < b" using k(3) by simp
  moreover have "a \<le> j" using k assms by simp
  ultimately show "j \<in> {j. a \<le> j \<and> j < b \<and> step dvd (j - a)}" using k(3) by simp
next
  fix j assume "j \<in> {j. a \<le> j \<and> j < b \<and> step dvd (j - a)}"
  then have j: "a \<le> j" "j < b" "step dvd (j - a)" by auto
  then obtain k where k: "j - a = step * k" by (auto elim: dvdE)
  have "0 \<le> step * k" using j(1) k by simp
  then have "0 \<le> k" using assms by (simp add: zero_le_mult_iff)
  moreover have "k \<le> (b - a - 1) div step"
  proof -
    have "step * k \<le> b - a - 1" using j(2) k by linarith
    then have "step * k div step \<le> (b - a - 1) div step" by (rule zdiv_mono1) (rule assms)
    then show ?thesis using assms by simp
  qed
  ultimately show "j \<in> set (py_range a b step)"
    using k by (auto simp: py_range_def image_iff intro!: bexI[of _ k] simp: algebra_simps)
qed

lemma distinct_py_range: "0 < step \<Longrightarrow> distinct (py_range a b step)"
  by (auto simp: py_range_def distinct_map inj_on_def)

lemma mark_multiple_fst:
  assumes "0 \<le> j" "nat j < length (fst st)" "0 \<le> n"
  shows "fst (mark_multiple i j st) ! nat n =
           (if n = j then wrap64 (fst st ! nat n * i) else fst st ! nat n)"
proof (cases "n = j")
  case True
  then show ?thesis using assms by (simp add: mark_multiple_def Let_def)
next
  case False
  then have "nat j \<noteq> nat n" using assms by simp
  then show ?thesis using False by (simp add: mark_multiple_def Let_def)
qed

lemma mark_multiple_snd:
  assumes "0 \<le> j" "nat j < length (snd st)" "0 \<le> n"
  shows "snd (mark_multiple i j st) ! nat n \<longleftrightarrow> \<not> (n = j \<and> n \<noteq> i) \<and> snd st ! nat n"
proof (cases "n = j")
  case True
  then show ?thesis using assms by (simp add: mark_multiple_def Let_def)
next
  case False
  then have "nat j \<noteq> nat n" using assms by simp
  then show ?thesis using False by (simp add: mark_multiple_def Let_def)
qed

lemma fold_mark_multiple:
  assumes "distinct js" "\<forall>j\<in>set js. 0 \<le> j \<and> nat j < length (fst st)" "length (snd st) = length (fst st)"
  shows "length (fst (fold (mark_multiple i) js st)) = length (fst st)
       \<and> length (snd (fold (mark_multiple i) js st)) = length (fst st)
       \<and> (\<forall>n. 0 \<le> n \<and> nat n < length (fst st) \<longrightarrow>
            fst (fold (mark_multiple i) js st) ! nat n =
              (if n \<in> set js then wrap64 (fst st ! nat n * i) else fst st ! nat n)
          \<and> (snd (fold (mark_multiple i) js st) ! nat n \<longleftrightarrow>
              \<not> (n \<in> set js \<and> n \<noteq> i) \<and> snd st ! nat n))"
  using assms
proof (induction js arbitrary: st)
  case Nil
  then show ?case by simp
next
  case (Cons j js)
  let ?st = "mark_multiple i j st"
  have len: "length (fst ?st) = length (fst st)" "length (snd ?st) = length (fst st)"
    using Cons.prems(3) by (auto simp: mark_multiple_def Let_def)
  have j: "0 \<le> j" "nat j < length (fst st)" "j \<notin> set js" using Cons.prems by auto
  have IH: "length (fst (fold (mark_multiple i) js ?st)) = length (fst ?st)
       \<and> length (snd (fold (mark_multiple i) js ?st)) = length (fst ?st)
       \<and> (\<forall>n. 0 \<le> n \<and> nat n < length (fst ?st) \<longrightarrow>
            fst (fold (mark_multiple i) js ?st) ! nat n =
              (if n \<in> set js then wrap64 (fst ?st ! nat n * i) else fst ?st ! nat n)
          \<and> (snd (fold (mark_multiple i) js ?st) ! nat n \<longleftrightarrow>
              \<not> (n \<in> set js \<and> n \<noteq> i) \<and> snd ?st ! nat n))"
  proof (rule Cons.IH)
    show "distinct js" using Cons.prems(1) by simp
    show "\<forall>j\<in>set js. 0 \<le> j \<and> nat j < length (fst ?st)" using Cons.prems(2) len by simp
    show "length (snd ?st) = length (fst ?st)" using len by simp
  qed
  have one: "\<And>n. 0 \<le> n \<Longrightarrow> nat n < length (fst st) \<Longrightarrow>
      fst ?st ! nat n = (if n = j then wrap64 (fst st ! nat n * i) else fst st ! nat n)
      \<and> (snd ?st ! nat n \<longleftrightarrow> \<not> (n = j \<and> n \<noteq> i) \<and> snd st ! nat n)"
    using j Cons.prems(3) mark_multiple_fst[of j st _ i] mark_multiple_snd[of j st _ i] by simp
  show ?case
  proof (intro conjI allI impI)
    show "length (fst (fold (mark_multiple i) (j # js) st)) = length (fst st)"
      using IH len by simp
    show "length (snd (fold (mark_multiple i) (j # js) st)) = length (fst st)"
      using IH len by simp
  next
    fix n assume n: "0 \<le> n \<and> nat n < length (fst st)"
    then show "fst (fold (mark_multiple i) (j # js) st) ! nat n =
        (if n \<in> set (j # js) then wrap64 (fst st ! nat n * i) else fst st ! nat n)"
      using IH len one[of n] j by auto
  next
    fix n assume n: "0 \<le> n \<and> nat n < length (fst st)"
    then show "snd (fold (mark_multiple i) (j # js) st) ! nat n \<longleftrightarrow>
        \<not> (n \<in> set (j # js) \<and> n \<noteq> i) \<and> snd st ! nat n"
      using IH len one[of n] j by auto
  qed
qed

lemma finite_int_range [simp]: "finite {p. a \<le> p \<and> p \<le> (n::int) \<and> P p}"
  by (rule finite_subset[of _ "{a..n}"]) auto

lemma rad_upto_pos: "0 < rad_upto m n"
  unfolding rad_upto_def by (rule prod_pos) auto

lemma rad_upto_le: "1 \<le> n \<Longrightarrow> rad_upto m n \<le> n"
proof -
  assume n: "1 \<le> n"
  have "rad_upto m n dvd n" unfolding rad_upto_def
    by (rule prod_primes_dvd) (auto simp: finite_int_range)
  then show ?thesis using n by (intro zdvd_imp_le) auto
qed

lemma rad_upto_0: "rad_upto m 0 = 1"
  by (simp add: rad_upto_def)

lemma rad_upto_Suc:
  "rad_upto (m + 1) n = (if is_prime_number m \<and> m dvd n \<and> 1 \<le> n then rad_upto m n * m else rad_upto m n)"
proof (cases "is_prime_number m \<and> m dvd n \<and> 1 \<le> n")
  case True
  then have "m \<le> n" by (intro zdvd_imp_le) auto
  with True have "{p \<in> {2..n}. p < m + 1 \<and> is_prime_number p \<and> p dvd n}
      = insert m {p \<in> {2..n}. p < m \<and> is_prime_number p \<and> p dvd n}"
    by (auto dest: prime_ge2)
  then show ?thesis using True by (simp add: rad_upto_def mult.commute)
next
  case False
  have "{p \<in> {2..n}. p < m + 1 \<and> is_prime_number p \<and> p dvd n}
      = {p \<in> {2..n}. p < m \<and> is_prime_number p \<and> p dvd n}"
  proof -
    have "\<And>p. p < m + 1 \<Longrightarrow> p \<noteq> m \<Longrightarrow> p < m" by simp
    moreover have "\<And>p. p \<in> {2..n} \<Longrightarrow> is_prime_number p \<Longrightarrow> p dvd n \<Longrightarrow> p \<noteq> m"
      using False by auto
    ultimately show ?thesis by (intro Collect_cong) (metis less_add_one less_trans)
  qed
  then have "rad_upto (m + 1) n = rad_upto m n" by (simp only: rad_upto_def)
  then show ?thesis by (simp only: if_not_P[OF False])
qed

lemma rad_upto_radical: "n \<le> m - 1 \<Longrightarrow> rad_upto m n = radical n"
  unfolding rad_upto_def radical_def by (intro arg_cong[where f=prod] arg_cong[where f="\<lambda>S. \<Prod>S"] Collect_cong) auto

lemma wrap64_id: "- (2 ^ 63) \<le> x \<Longrightarrow> x < 2 ^ 63 \<Longrightarrow> wrap64 x = x"
  by (simp add: wrap64_def)

lemma no_small_prime_divisor_iff:
  assumes "2 \<le> m"
  shows "(\<forall>p. 2 \<le> p \<and> p < m \<and> is_prime_number p \<and> p dvd m \<longrightarrow> p = m) \<longleftrightarrow> is_prime_number m"
proof
  assume H: "\<forall>p. 2 \<le> p \<and> p < m \<and> is_prime_number p \<and> p dvd m \<longrightarrow> p = m"
  show "is_prime_number m"
    unfolding is_prime_number_def
  proof (intro conjI ballI notI)
    show "1 < m" using assms by simp
  next
    fix d assume d: "d \<in> {2..<m}" "d dvd m"
    then obtain p where p: "is_prime_number p" "p dvd d" "p \<le> d"
      using prime_divisor[of d] by auto
    then have "2 \<le> p \<and> p < m \<and> is_prime_number p \<and> p dvd m"
      using d by (auto dest: prime_ge2 elim: dvd_trans)
    with H have "p = m" by blast
    with p d show False by simp
  qed
next
  assume "is_prime_number m"
  then show "\<forall>p. 2 \<le> p \<and> p < m \<and> is_prime_number p \<and> p dvd m \<longrightarrow> p = m"
    by (auto simp: is_prime_number_def)
qed

lemma sieve_inv_flag:
  assumes "sieve_inv limit m st" "2 \<le> m" "m \<le> limit"
  shows "snd st ! nat m \<longleftrightarrow> is_prime_number m"
  using assms no_small_prime_divisor_iff[of m] by (simp add: sieve_inv_def)

lemma sieve_inv_step:
  assumes inv: "sieve_inv limit m st" and m: "2 \<le> m" "m \<le> limit" and lim: "limit < 2 ^ 63"
  shows "sieve_inv limit (m + 1) (sieve_step limit m st)"
proof (cases "is_prime_number m")
  case False
  then have st: "sieve_step limit m st = st"
    using sieve_inv_flag[OF inv m] by (simp add: sieve_step_def)
  have "\<And>n. rad_upto (m + 1) n = rad_upto m n"
    using False by (simp add: rad_upto_Suc)
  moreover have "\<And>n. (\<forall>p. 2 \<le> p \<and> p < m + 1 \<and> is_prime_number p \<and> p dvd n \<longrightarrow> p = n)
        \<longleftrightarrow> (\<forall>p. 2 \<le> p \<and> p < m \<and> is_prime_number p \<and> p dvd n \<longrightarrow> p = n)"
  proof -
    fix n
    have "\<And>p. is_prime_number p \<Longrightarrow> p < m + 1 \<longleftrightarrow> p < m"
      using False by (metis zless_add1_eq)
    then show "(\<forall>p. 2 \<le> p \<and> p < m + 1 \<and> is_prime_number p \<and> p dvd n \<longrightarrow> p = n)
        \<longleftrightarrow> (\<forall>p. 2 \<le> p \<and> p < m \<and> is_prime_number p \<and> p dvd n \<longrightarrow> p = n)"
      by blast
  qed
  ultimately show ?thesis using inv unfolding st sieve_inv_def by simp
next
  case True
  let ?js = "py_range m (limit + 1) m"
  let ?st = "fold (mark_multiple m) ?js st"
  have st: "sieve_step limit m st = ?st"
    using True sieve_inv_flag[OF inv m] by (simp add: sieve_step_def)
  have len: "length (fst st) = nat (limit + 1)" "length (snd st) = nat (limit + 1)"
    using inv by (simp_all add: sieve_inv_def)
  have mpos: "0 < m" using m by simp
  have js: "set ?js = {j. m \<le> j \<and> j \<le> limit \<and> m dvd j}"
    using set_py_range[OF mpos, of m "limit + 1"] by (auto simp: dvd_diff_left_iff)
  have fm: "length (fst ?st) = length (fst st)
       \<and> length (snd ?st) = length (fst st)
       \<and> (\<forall>n. 0 \<le> n \<and> nat n < length (fst st) \<longrightarrow>
            fst ?st ! nat n = (if n \<in> set ?js then wrap64 (fst st ! nat n * m) else fst st ! nat n)
          \<and> (snd ?st ! nat n \<longleftrightarrow> \<not> (n \<in> set ?js \<and> n \<noteq> m) \<and> snd st ! nat n))"
  proof (rule fold_mark_multiple)
    show "distinct ?js" using mpos by (rule distinct_py_range)
    show "\<forall>j\<in>set ?js. 0 \<le> j \<and> nat j < length (fst st)"
      unfolding js len using m by auto
    show "length (snd st) = length (fst st)" using len by simp
  qed
  show ?thesis
    unfolding st sieve_inv_def
  proof (intro conjI allI impI)
    show "length (fst ?st) = nat (limit + 1)" using fm len by simp
    show "length (snd ?st) = nat (limit + 1)" using fm len by simp
  next
    fix n assume n: "0 \<le> n \<and> n \<le> limit"
    then have nl: "0 \<le> n \<and> nat n < length (fst st)" using len by auto
    have old: "fst st ! nat n = rad_upto m n" using inv n by (simp add: sieve_inv_def)
    have nthf: "fst ?st ! nat n = (if n \<in> set ?js then wrap64 (fst st ! nat n * m) else fst st ! nat n)"
      using fm nl by blast
    show "fst ?st ! nat n = rad_upto (m + 1) n"
    proof (cases "n \<in> set ?js")
      case False
      have "\<not> (m dvd n \<and> 1 \<le> n)"
      proof
        assume a: "m dvd n \<and> 1 \<le> n"
        then have "m \<le> n" by (intro zdvd_imp_le) auto
        then have "n \<in> set ?js" unfolding js using a n by simp
        with False show False by simp
      qed
      then have "rad_upto (m + 1) n = rad_upto m n" by (simp only: rad_upto_Suc) simp
      then show ?thesis using False nthf old by simp
    next
      case in_js: True
      then have mn: "m dvd n" "1 \<le> n" using m unfolding js by auto
      then have eq: "rad_upto (m + 1) n = rad_upto m n * m"
        using True by (simp add: rad_upto_Suc)
      have "0 < rad_upto (m + 1) n" by (rule rad_upto_pos)
      moreover have "rad_upto (m + 1) n \<le> n" using mn by (intro rad_upto_le)
      ultimately have "wrap64 (rad_upto m n * m) = rad_upto m n * m"
        unfolding eq[symmetric] using n lim by (intro wrap64_id) auto
      then show ?thesis using in_js nthf old eq by simp
    qed
  next
    fix n assume n: "0 \<le> n \<and> n \<le> limit"
    then have nl: "0 \<le> n \<and> nat n < length (fst st)" using len by auto
    have old: "snd st ! nat n \<longleftrightarrow> 2 \<le> n \<and> (\<forall>p. 2 \<le> p \<and> p < m \<and> is_prime_number p \<and> p dvd n \<longrightarrow> p = n)"
      using inv n by (simp add: sieve_inv_def)
    have new: "snd ?st ! nat n \<longleftrightarrow> \<not> (n \<in> set ?js \<and> n \<noteq> m) \<and> snd st ! nat n"
      using fm nl by blast
    have mem: "2 \<le> n \<Longrightarrow> n \<in> set ?js \<longleftrightarrow> m dvd n"
      using n unfolding js by (auto intro: zdvd_imp_le)
    have split: "(\<forall>p. 2 \<le> p \<and> p < m + 1 \<and> is_prime_number p \<and> p dvd n \<longrightarrow> p = n)
        \<longleftrightarrow> (\<forall>p. 2 \<le> p \<and> p < m \<and> is_prime_number p \<and> p dvd n \<longrightarrow> p = n) \<and> (m dvd n \<longrightarrow> m = n)"
    proof -
      have "\<And>p. p < m + 1 \<longleftrightarrow> p < m \<or> p = m" by auto
      then show ?thesis using True m by (simp only:) blast
    qed
    show "snd ?st ! nat n \<longleftrightarrow> 2 \<le> n \<and> (\<forall>p. 2 \<le> p \<and> p < m + 1 \<and> is_prime_number p \<and> p dvd n \<longrightarrow> p = n)"
      unfolding new old split using mem by auto
  qed
qed

lemma sieve_inv_init:
  assumes "1 \<le> limit"
  shows "sieve_inv limit 2 (replicate (nat (limit + 1)) 1, (replicate (nat (limit + 1)) True)[0 := False, 1 := False])"
  unfolding sieve_inv_def
proof (intro conjI allI impI)
  fix n assume n: "0 \<le> n \<and> n \<le> limit"
  have "{p \<in> {2..n}. p < 2 \<and> is_prime_number p \<and> p dvd n} = {}" by auto
  then have "rad_upto 2 n = 1" by (simp only: rad_upto_def prod.empty)
  then show "fst (replicate (nat (limit + 1)) 1, (replicate (nat (limit + 1)) True)[0 := False, 1 := False]) ! nat n = rad_upto 2 n"
    using n by simp
  have "nat n = 0 \<or> nat n = 1 \<or> 2 \<le> n" using n by linarith
  then show "snd (replicate (nat (limit + 1)) (1::int), (replicate (nat (limit + 1)) True)[0 := False, 1 := False]) ! nat n
      \<longleftrightarrow> 2 \<le> n \<and> (\<forall>p. 2 \<le> p \<and> p < 2 \<and> is_prime_number p \<and> p dvd n \<longrightarrow> p = n)"
    using n assms by (auto simp: nth_list_update)
qed simp_all

lemma sieve_inv_fold:
  assumes "sieve_inv limit 2 st" "limit < 2 ^ 63" "1 + int k \<le> limit"
  shows "sieve_inv limit (2 + int k) (fold (sieve_step limit) [2..1 + int k] st)"
  using assms(3)
proof (induction k)
  case 0
  then show ?case using assms(1) by simp
next
  case (Suc k)
  have "[2..1 + int (Suc k)] = [2..1 + int k] @ [2 + int k]"
    using upto_rec2[of 2 "2 + int k"] by (simp add: add.commute)
  moreover have "sieve_inv limit (2 + int k + 1) (sieve_step limit (2 + int k) (fold (sieve_step limit) [2..1 + int k] st))"
    using Suc assms(2) by (intro sieve_inv_step) auto
  ultimately show ?case by (simp add: add.commute add.left_commute)
qed

lemma sieve_inv_final:
  assumes "1 \<le> limit" "limit < 2 ^ 63"
  shows "sieve_inv limit (limit + 1)
           (fold (sieve_step limit) [2..limit]
              (replicate (nat (limit + 1)) 1, (replicate (nat (limit + 1)) True)[0 := False, 1 := False]))"
proof -
  have e: "1 + int (nat (limit - 1)) = limit" "2 + int (nat (limit - 1)) = limit + 1"
    using assms by auto
  have "1 + int (nat (limit - 1)) \<le> limit" using e by simp
  from sieve_inv_fold[OF sieve_inv_init[OF assms(1)] assms(2) this]
  show ?thesis unfolding e .
qed

lemma prime_flag_final:
  assumes "2 \<le> n" "n \<le> limit"
  shows "(\<forall>p. 2 \<le> p \<and> p < limit + 1 \<and> is_prime_number p \<and> p dvd n \<longrightarrow> p = n) \<longleftrightarrow> is_prime_number n"
proof
  assume H: "\<forall>p. 2 \<le> p \<and> p < limit + 1 \<and> is_prime_number p \<and> p dvd n \<longrightarrow> p = n"
  obtain p where p: "is_prime_number p" "p dvd n" "p \<le> n"
    using prime_divisor[OF assms(1)] by blast
  then have "p = n" using H assms by (auto dest: prime_ge2)
  with p show "is_prime_number n" by simp
next
  assume "is_prime_number n"
  then show "\<forall>p. 2 \<le> p \<and> p < limit + 1 \<and> is_prime_number p \<and> p dvd n \<longrightarrow> p = n"
    by (auto dest: prime_dvd_prime)
qed

lemma sieve_radicals_result:
  assumes "1 \<le> limit" "limit < 2 ^ 63"
  shows "\<exists>rads. sieve_radicals limit = Inr (rads, {p \<in> {2..limit}. is_prime_number p})
           \<and> length rads = nat (limit + 1)
           \<and> (\<forall>n. 0 \<le> n \<and> n \<le> limit \<longrightarrow> rads ! nat n = radical n)"
proof -
  let ?st = "fold (sieve_step limit) [2..limit]
              (replicate (nat (limit + 1)) 1, (replicate (nat (limit + 1)) True)[0 := False, 1 := False])"
  have inv: "sieve_inv limit (limit + 1) ?st" using assms by (rule sieve_inv_final)
  have eq: "sieve_radicals limit = Inr (fst ?st, set (filter (\<lambda>i. snd ?st ! nat i) [2..limit]))"
    using assms(1) by (simp add: sieve_radicals_def Let_def)
  have flags: "\<And>n. 2 \<le> n \<Longrightarrow> n \<le> limit \<Longrightarrow> snd ?st ! nat n \<longleftrightarrow> is_prime_number n"
    using inv prime_flag_final[of _ limit] by (simp add: sieve_inv_def)
  have "set (filter (\<lambda>i. snd ?st ! nat i) [2..limit]) = {p \<in> {2..limit}. is_prime_number p}"
    using flags by auto
  moreover have "length (fst ?st) = nat (limit + 1)" using inv by (simp add: sieve_inv_def)
  moreover have "\<forall>n. 0 \<le> n \<and> n \<le> limit \<longrightarrow> fst ?st ! nat n = radical n"
    using inv rad_upto_radical[of _ "limit + 1"] by (simp add: sieve_inv_def)
  ultimately show ?thesis using eq by simp
qed

lemma divide_out_stop: "t mod d \<noteq> 0 \<Longrightarrow> divide_out d t = Some t"
  by (subst divide_out.simps) simp

lemma divide_out_step: "t mod d = 0 \<Longrightarrow> divide_out d t = divide_out d (t div d)"
  by (subst divide_out.simps) simp

lemma divide_out_nat:
  assumes "2 \<le> d"
  shows "0 < int t \<Longrightarrow> \<exists>k t'. divide_out d (int t) = Some t' \<and> int t = d ^ k * t' \<and> \<not> d dvd t' \<and> 0 < t'"
proof (induction t rule: less_induct)
  case (less t)
  show ?case
  proof (cases "int t mod d = 0")
    case False
    then have "divide_out d (int t) = Some (int t)" by (rule divide_out_stop)
    moreover have "\<not> d dvd int t" using False by (simp add: dvd_eq_mod_eq_0)
    ultimately show ?thesis using less.prems by (intro exI[of _ 0] exI[of _ "int t"]) simp
  next
    case True
    let ?u = "int t div d"
    have t: "int t = d * ?u" using True by auto
    have "0 < d * ?u" using less.prems t by simp
    moreover have "0 < d" using assms by simp
    ultimately have upos: "0 < ?u" by (simp add: zero_less_mult_iff)
    have "1 * ?u < d * ?u" using upos assms by (intro mult_strict_right_mono) auto
    then have "?u < int t" using t by simp
    then have "nat ?u < t" "0 < int (nat ?u)" using upos by auto
    from less.IH[OF this] obtain k t' where
      k: "divide_out d ?u = Some t'" "?u = d ^ k * t'" "\<not> d dvd t'" "0 < t'"
      using upos by auto
    have "divide_out d (int t) = Some t'" using divide_out_step[OF True] k(1) by simp
    moreover have "int t = d ^ Suc k * t'" using t k(2) by simp
    ultimately show ?thesis using k(3,4) by blast
  qed
qed

lemma divide_out_pos:
  assumes "2 \<le> d" "0 < t"
  shows "\<exists>k t'. divide_out d t = Some t' \<and> t = d ^ k * t' \<and> \<not> d dvd t' \<and> 0 < t'"
  using divide_out_nat[OF assms(1), of "nat t"] assms(2) by simp

lemma prime_dvd_power: "is_prime_number p \<Longrightarrow> p dvd a ^ k \<Longrightarrow> p dvd a"
proof (induction k)
  case 0
  then show ?case using prime_ge2[of p] by simp
next
  case (Suc k)
  then show ?case using prime_dvd_mult[of p a "a ^ k"] by auto
qed

lemma prime_odd: "is_prime_number p \<Longrightarrow> 3 \<le> p \<Longrightarrow> \<not> 2 dvd p"
  by (auto simp: is_prime_number_def)

lemma prime_even: "is_prime_number p \<Longrightarrow> 2 dvd p \<Longrightarrow> p = 2"
  using prime_odd[of p] prime_ge2[of p] by force

lemma dvd_imp_le_int: "1 \<le> n \<Longrightarrow> x dvd n \<Longrightarrow> x \<le> (n::int)"
  by (rule zdvd_imp_le) auto

lemma odd_prime_set: "1 \<le> n \<Longrightarrow> {p \<in> {3..n}. is_prime_number p \<and> p dvd n} = {p. 3 \<le> p \<and> is_prime_number p \<and> p dvd n}"
  by (auto intro: dvd_imp_le_int)

lemma finite_odd_primes: "1 \<le> n \<Longrightarrow> finite {p. 3 \<le> p \<and> is_prime_number p \<and> p dvd n}"
  by (rule finite_subset[of _ "{3..n}"]) (auto intro: dvd_imp_le_int)

lemma odd_radical_of_alt: "1 \<le> n \<Longrightarrow> odd_radical_of n = \<Prod>{p. 3 \<le> p \<and> is_prime_number p \<and> p dvd n}"
  by (simp only: odd_radical_of_def odd_prime_set)

lemma odd_radical_of_le1: "n \<le> 1 \<Longrightarrow> odd_radical_of n = 1"
proof -
  assume "n \<le> 1"
  then have "{p \<in> {3..n}. is_prime_number p \<and> p dvd n} = {}" by auto
  then show ?thesis by (simp only: odd_radical_of_def prod.empty)
qed

lemma odd_radical_of_prime:
  assumes "is_prime_number p" "3 \<le> p"
  shows "odd_radical_of p = p"
proof -
  have "{q. 3 \<le> q \<and> is_prime_number q \<and> q dvd p} = {p}"
    using assms by (auto dest: prime_dvd_prime)
  then show ?thesis using assms by (simp add: odd_radical_of_alt)
qed

lemma odd_radical_of_strip:
  assumes d: "is_prime_number d" "3 \<le> d" and k: "0 < k" and t: "1 \<le> t" "\<not> d dvd t"
  shows "odd_radical_of (d ^ k * t) = d * odd_radical_of t"
proof -
  have "1 \<le> d ^ k" using d(2) by (intro one_le_power) simp
  then have "1 * 1 \<le> d ^ k * t" using t(1) by (intro mult_mono) auto
  then have pos: "1 \<le> d ^ k * t" by simp
  have "d dvd d ^ k" using k by (cases k) auto
  then have dd: "d dvd d ^ k * t" by simp
  have "{p. 3 \<le> p \<and> is_prime_number p \<and> p dvd d ^ k * t}
      = insert d {p. 3 \<le> p \<and> is_prime_number p \<and> p dvd t}" (is "?A = insert d ?B")
  proof (intro set_eqI iffI)
    fix p assume "p \<in> ?A"
    then have p: "3 \<le> p" "is_prime_number p" "p dvd d ^ k * t" by auto
    from prime_dvd_mult[OF p(2,3)] show "p \<in> insert d ?B"
    proof
      assume "p dvd d ^ k"
      then have "p dvd d" using p(2) by (rule prime_dvd_power[rotated])
      then have "p = d" using p(2) d(1) by (rule prime_dvd_prime[rotated 2])
      then show ?thesis by simp
    next
      assume "p dvd t"
      then show ?thesis using p by simp
    qed
  next
    fix p assume "p \<in> insert d ?B"
    then show "p \<in> ?A" using d dd by auto
  qed
  moreover have "d \<notin> ?B" using t(2) by simp
  moreover have "finite ?B" using t(1) by (rule finite_odd_primes)
  ultimately show ?thesis
    using odd_radical_of_alt[OF pos] odd_radical_of_alt[OF t(1)] by simp
qed

lemma odd_radical_of_strip2:
  assumes t: "1 \<le> t"
  shows "odd_radical_of (2 ^ k * t) = odd_radical_of t"
proof -
  have "(1::int) \<le> 2 ^ k" by (intro one_le_power) simp
  then have "1 * 1 \<le> 2 ^ k * t" using t by (intro mult_mono) auto
  then have pos: "1 \<le> 2 ^ k * t" by simp
  have "{p. 3 \<le> p \<and> is_prime_number p \<and> p dvd 2 ^ k * t}
      = {p. 3 \<le> p \<and> is_prime_number p \<and> p dvd t}" (is "?A = ?B")
  proof (intro set_eqI iffI)
    fix p assume "p \<in> ?A"
    then have p: "3 \<le> p" "is_prime_number p" "p dvd 2 ^ k * t" by auto
    from prime_dvd_mult[OF p(2,3)] show "p \<in> ?B"
    proof
      assume "p dvd 2 ^ k"
      then have "p dvd 2" using p(2) by (rule prime_dvd_power[rotated])
      then have "p \<le> 2" by (intro zdvd_imp_le) auto
      then show ?thesis using p(1) by simp
    next
      assume "p dvd t"
      then show ?thesis using p by simp
    qed
  next
    fix p assume "p \<in> ?B"
    then show "p \<in> ?A" by auto
  qed
  then show ?thesis
    using odd_radical_of_alt[OF pos] odd_radical_of_alt[OF t] by simp
qed

lemma trial_inv_ge:
  assumes "trial_inv temp d" "2 \<le> e" "e dvd temp"
  shows "d \<le> e"
proof -
  obtain p where p: "is_prime_number p" "p dvd e" "p \<le> e"
    using prime_divisor[OF assms(2)] by blast
  then have "p dvd temp" using assms(3) by (auto elim: dvd_trans)
  then have "d \<le> p" using assms(1) p(1) by (simp add: trial_inv_def)
  then show ?thesis using p(3) by simp
qed

lemma trial_inv_prime_d:
  assumes "trial_inv temp d" "d dvd temp"
  shows "is_prime_number d"
  unfolding is_prime_number_def
proof (intro conjI ballI notI)
  show "1 < d" using assms(1) by (simp add: trial_inv_def)
next
  fix e assume e: "e \<in> {2..<d}" "e dvd d"
  then have "e dvd temp" using assms(2) by (auto elim: dvd_trans)
  moreover have "2 \<le> e" using e(1) by simp
  ultimately have "d \<le> e" using trial_inv_ge[OF assms(1), of e] by simp
  then show False using e(1) by simp
qed

lemma trial_inv_exit:
  assumes "trial_inv temp d" "temp < d * d" "1 < temp"
  shows "is_prime_number temp \<and> 3 \<le> temp"
proof -
  have "is_prime_number temp"
    unfolding is_prime_number_def
  proof (intro conjI ballI notI)
    show "1 < temp" by (rule assms(3))
  next
    fix e assume e: "e \<in> {2..<temp}" "e dvd temp"
    then obtain f where f: "temp = e * f" by (auto elim: dvdE)
    have "0 < e * f" using f assms(3) by simp
    moreover have "0 < e" using e(1) by simp
    ultimately have "0 < f" by (simp add: zero_less_mult_iff)
    moreover have "f \<noteq> 1" using f e(1) by auto
    ultimately have f2: "2 \<le> f" by linarith
    have "f dvd temp" using f by simp
    with assms(1) f2 have df: "d \<le> f" by (rule trial_inv_ge)
    have "2 \<le> e" using e(1) by simp
    with assms(1) have de: "d \<le> e" using e(2) by (rule trial_inv_ge)
    have "0 \<le> d" using assms(1) by (simp add: trial_inv_def)
    then have "d * d \<le> e * f" using de df by (intro mult_mono) auto
    then show False using assms(2) f by simp
  qed
  moreover have "d \<le> temp"
  proof (rule trial_inv_ge[OF assms(1)])
    show "2 \<le> temp" using assms(3) by simp
    show "temp dvd temp" by simp
  qed
  moreover have "3 \<le> d" using assms(1) by (simp add: trial_inv_def)
  ultimately show ?thesis by simp
qed

lemma trial_inv_next:
  assumes "trial_inv temp d" "1 \<le> t'" "\<not> d dvd t'" "t' dvd temp"
  shows "trial_inv t' (d + 2)"
  unfolding trial_inv_def
proof (intro conjI allI impI)
  show "3 \<le> d + 2" "\<not> 2 dvd d + 2" "1 \<le> t'" using assms by (simp_all add: trial_inv_def)
next
  fix p assume p: "is_prime_number p \<and> p dvd t'"
  then have "p dvd temp" using assms(4) by (auto elim: dvd_trans)
  then have "d \<le> p" using assms(1) p by (simp add: trial_inv_def)
  moreover have "p \<noteq> d" using p assms(3) by auto
  moreover have "p \<noteq> d + 1"
  proof
    assume "p = d + 1"
    then have "2 dvd p" using assms(1) by (simp add: trial_inv_def)
    then have "p = 2" using p by (intro prime_even) auto
    then show False using \<open>p = d + 1\<close> assms(1) by (simp add: trial_inv_def)
  qed
  ultimately show "d + 2 \<le> p" by linarith
qed

lemma trial_loop_correct_nat:
  "trial_inv temp d \<Longrightarrow> nat (temp + 2 - d) = m \<Longrightarrow>
     \<exists>r' t'. trial_loop r temp d = Some (r', t')
        \<and> (if t' > 1 then r' * t' else r') = r * odd_radical_of temp"
proof (induction m arbitrary: r temp d rule: less_induct)
  case (less m)
  note inv = less.prems(1)
  have d3: "3 \<le> d" and t1: "1 \<le> temp" using inv by (simp_all add: trial_inv_def)
  show ?case
  proof (cases "d * d \<le> temp")
    case False
    then have eq: "trial_loop r temp d = Some (r, temp)" by (subst trial_loop.simps) simp
    show ?thesis
    proof (cases "1 < temp")
      case True
      then have "odd_radical_of temp = temp"
        using trial_inv_exit[OF inv] False by (intro odd_radical_of_prime) auto
      then show ?thesis using eq True by simp
    next
      case F: False
      then have "odd_radical_of temp = 1" by (intro odd_radical_of_le1) simp
      then show ?thesis using eq F by simp
    qed
  next
    case True
    have "d * 1 \<le> d * d" using d3 by (intro mult_left_mono) auto
    then have dle: "d \<le> temp" using True by simp
    show ?thesis
    proof (cases "temp mod d = 0")
      case F: False
      then have eq: "trial_loop r temp d = trial_loop r temp (d + 2)"
        using True by (subst trial_loop.simps) simp
      have "\<not> d dvd temp" using F by (simp add: dvd_eq_mod_eq_0)
      then have inv': "trial_inv temp (d + 2)" using trial_inv_next[OF inv t1] by simp
      have "nat (temp + 2 - (d + 2)) < m" using less.prems(2) dle by auto
      from less.IH[OF this inv' refl, of r] show ?thesis using eq by simp
    next
      case T: True
      then have ddvd: "d dvd temp" by (simp add: dvd_eq_mod_eq_0)
      have dprime: "is_prime_number d" using inv ddvd by (rule trial_inv_prime_d)
      obtain k t' where k: "divide_out d temp = Some t'" "temp = d ^ k * t'" "\<not> d dvd t'" "0 < t'"
        using divide_out_pos[of d temp] d3 t1 by auto
      have kpos: "0 < k" using k(2,3) ddvd by (cases k) auto
      have eq: "trial_loop r temp d = trial_loop (r * d) t' (d + 2)"
        using True T k(1) by (subst trial_loop.simps) simp
      have t'dvd: "t' dvd temp" using k(2) by simp
      have "1 \<le> t'" using k(4) by simp
      with inv have inv': "trial_inv t' (d + 2)" using k(3) t'dvd by (rule trial_inv_next)
      have "t' \<le> temp" using t1 t'dvd by (rule dvd_imp_le_int)
      then have "nat (t' + 2 - (d + 2)) < m" using less.prems(2) dle by auto
      from less.IH[OF this inv' refl, of "r * d"] obtain r' t'' where
        res: "trial_loop (r * d) t' (d + 2) = Some (r', t'')"
             "(if t'' > 1 then r' * t'' else r') = r * d * odd_radical_of t'" by blast
      have "odd_radical_of temp = d * odd_radical_of t'"
        unfolding k(2) using dprime d3 kpos k(3,4) by (intro odd_radical_of_strip) auto
      then show ?thesis using eq res by simp
    qed
  qed
qed

lemma odd_radical_result: "odd_radical n = Some (odd_radical_of n)"
proof (cases "n \<le> 1")
  case True
  then show ?thesis by (simp add: odd_radical_def odd_radical_of_le1)
next
  case False
  then obtain k t where k: "divide_out 2 n = Some t" "n = 2 ^ k * t" "\<not> 2 dvd t" "0 < t"
    using divide_out_pos[of 2 n] by auto
  have inv: "trial_inv t 3"
    unfolding trial_inv_def
  proof (intro conjI allI impI)
    fix p assume p: "is_prime_number p \<and> p dvd t"
    then have "p \<noteq> 2" using k(3) by auto
    then show "3 \<le> p" using p prime_ge2[of p] by auto
  qed (use k in auto)
  obtain r' t' where res: "trial_loop 1 t 3 = Some (r', t')"
      "(if t' > 1 then r' * t' else r') = 1 * odd_radical_of t"
    using trial_loop_correct_nat[OF inv refl, of 1] by blast
  have "odd_radical_of n = odd_radical_of t"
    unfolding k(2) using k(4) by (intro odd_radical_of_strip2) auto
  then show ?thesis using False k(1) res by (simp add: odd_radical_def)
qed

lemma is_prime_number_2: "is_prime_number 2"
  by (simp add: is_prime_number_def)

lemma odd_radical_of_pos: "0 < odd_radical_of n"
  unfolding odd_radical_of_def by (rule prod_pos) auto

lemma odd_prod_odd:
  "finite F \<Longrightarrow> \<forall>p\<in>F. \<not> 2 dvd (p::int) \<Longrightarrow> \<not> 2 dvd \<Prod>F"
  by (induction F rule: finite_induct) auto

lemma odd_radical_of_odd: "\<not> 2 dvd odd_radical_of n"
  unfolding odd_radical_of_def
proof (rule odd_prod_odd)
  show "finite {p \<in> {3..n}. is_prime_number p \<and> p dvd n}" by simp
  show "\<forall>p\<in>{p \<in> {3..n}. is_prime_number p \<and> p dvd n}. \<not> 2 dvd p"
    using prime_odd by auto
qed

lemma radical_split:
  "radical n = (if 2 dvd n \<and> 2 \<le> n then 2 * odd_radical_of n else odd_radical_of n)"
proof (cases "2 dvd n \<and> 2 \<le> n")
  case True
  let ?B = "{p \<in> {3..n}. is_prime_number p \<and> p dvd n}"
  have A: "{p \<in> {2..n}. is_prime_number p \<and> p dvd n} = insert 2 ?B"
    using True is_prime_number_2 by auto
  have nin: "2 \<notin> ?B" by simp
  have fin: "finite ?B" by simp
  have "\<Prod>(insert 2 ?B) = 2 * \<Prod>?B" using fin nin by (rule prod.insert)
  then have "radical n = 2 * odd_radical_of n"
    unfolding radical_def odd_radical_of_def A .
  then show ?thesis using True by simp
next
  case False
  have "{p \<in> {2..n}. is_prime_number p \<and> p dvd n} = {p \<in> {3..n}. is_prime_number p \<and> p dvd n}"
  proof (intro set_eqI iffI)
    fix p assume p: "p \<in> {p \<in> {2..n}. is_prime_number p \<and> p dvd n}"
    then have "p \<noteq> 2" using False by auto
    then show "p \<in> {p \<in> {3..n}. is_prime_number p \<and> p dvd n}" using p by auto
  qed auto
  then have "radical n = odd_radical_of n" by (simp only: radical_def odd_radical_of_def)
  then show ?thesis by (simp only: if_not_P[OF False])
qed

lemma divide_out_2_radical: "divide_out 2 (radical n) = Some (odd_radical_of n)"
proof -
  have odd: "odd_radical_of n mod 2 \<noteq> 0"
    using odd_radical_of_odd[of n] by (simp add: dvd_eq_mod_eq_0)
  have stop: "divide_out 2 (odd_radical_of n) = Some (odd_radical_of n)"
    using odd by (rule divide_out_stop)
  show ?thesis
  proof (cases "2 dvd n \<and> 2 \<le> n")
    case True
    then have r: "radical n = 2 * odd_radical_of n" using radical_split[of n] by auto
    have "divide_out 2 (2 * odd_radical_of n) = divide_out 2 (2 * odd_radical_of n div 2)"
      by (rule divide_out_step) simp
    then show ?thesis using r stop by simp
  next
    case False
    then have "radical n = odd_radical_of n" using radical_split[of n] by auto
    then show ?thesis using stop by simp
  qed
qed

lemma odd_rad_result:
  assumes "adequate limit rads" "0 \<le> x" "x \<le> limit"
  shows "odd_rad x rads = Some (Inr (odd_radical_of x))"
proof -
  have "py_get rads x = Inr (radical x)"
    using assms by (auto simp: py_get_def adequate_def Let_def)
  then show ?thesis
    using divide_out_2_radical[of x] odd_radical_of_pos[of x] by (simp add: odd_rad_def)
qed

lemma odd_rad_out_of_range:
  assumes "int (length rads) \<le> x"
  shows "odd_rad x rads = Some (Inl IndexError)"
  using assms by (simp add: odd_rad_def py_get_def Let_def)

lemma rho_of_value: "2 \<le> N \<Longrightarrow> rho_of N cond = Inr (rho_value N cond)"
  by (simp add: rho_of_def rho_value_def)

lemma scan_row_result:
  assumes ad: "adequate limit rads" and ps: "primes_set = {p \<in> {2..limit}. is_prime_number p}"
    and p: "3 \<le> p" "p \<le> N div 2" and lim: "N - 3 \<le> limit"
  shows "scan_row N rads primes_set p = Some (Inr (scan_row_of N p))"
proof -
  have N: "6 \<le> N" using p by linarith
  have rp: "odd_rad p rads = Some (Inr (odd_radical_of p))"
    using ad p lim by (intro odd_rad_result[of limit]) auto
  have rq: "odd_rad (N - p) rads = Some (Inr (odd_radical_of (N - p)))"
    using ad p lim by (intro odd_rad_result[of limit]) auto
  have rM: "odd_rad (N div 2) rads = Some (Inr (odd_radical_of (N div 2)))"
    using ad p lim by (intro odd_rad_result[of limit]) auto
  have pp: "p \<in> primes_set \<longleftrightarrow> is_prime_number p"
    unfolding ps using p lim by auto
  have qq: "N - p \<in> primes_set \<longleftrightarrow> is_prime_number (N - p)"
    unfolding ps using p lim by auto
  have rho: "\<And>c. rho_of N c = Inr (rho_value N c)" using N by (intro rho_of_value) simp
  show ?thesis
    by (simp add: scan_row_def scan_row_of_def bind_result_def rp rq rM pp qq rho classify_def Let_def)
qed

lemma scan_loop_result:
  assumes ad: "adequate limit rads" and ps: "primes_set = {p \<in> {2..limit}. is_prime_number p}"
    and lim: "N - 3 \<le> limit"
  shows "\<forall>p\<in>set pl. 3 \<le> p \<and> p \<le> N div 2 \<Longrightarrow>
           scan_loop N rads primes_set pl = Some (Inr (map (scan_row_of N) pl))"
proof (induction pl)
  case Nil
  then show ?case by simp
next
  case (Cons p pl)
  then have p: "3 \<le> p" "p \<le> N div 2" by auto
  then have "\<not> N - p \<le> 1" by linarith
  moreover have "scan_row N rads primes_set p = Some (Inr (scan_row_of N p))"
    using ad ps p lim by (rule scan_row_result)
  moreover have "scan_loop N rads primes_set pl = Some (Inr (map (scan_row_of N) pl))"
    using Cons by simp
  ultimately show ?case by (simp add: bind_result_def)
qed

lemma scan_N_result:
  assumes "adequate limit rads" "primes_set = {p \<in> {2..limit}. is_prime_number p}" "N - 3 \<le> limit"
  shows "scan_N N rads primes_set = Some (Inr (map (scan_row_of N) [3..N div 2]))"
  unfolding scan_N_def using assms by (intro scan_loop_result[of limit]) auto

lemma export_row_result:
  assumes ad: "flags_adequate limit tbl"
    and p: "3 \<le> p" "p \<le> N div 2" and lim: "N - 3 \<le> limit"
  shows "export_row N tbl p = Some (Inr (export_row_of N p))"
proof -
  have N: "6 \<le> N" using p by linarith
  have pp: "py_get tbl p = Inr (is_prime_number p)"
    using ad p lim by (auto simp: py_get_def flags_adequate_def Let_def)
  have qq: "py_get tbl (N - p) = Inr (is_prime_number (N - p))"
    using ad p lim by (auto simp: py_get_def flags_adequate_def Let_def)
  have rho: "\<And>c. rho_of N c = Inr (rho_value N c)" using N by (intro rho_of_value) simp
  show ?thesis
    by (auto simp add: export_row_def export_row_of_def bind_result_def odd_radical_result pp qq rho classify_def Let_def)
qed

lemma export_loop_result:
  assumes ad: "flags_adequate limit tbl" and lim: "N - 3 \<le> limit"
  shows "\<forall>p\<in>set pl. 3 \<le> p \<and> p \<le> N div 2 \<Longrightarrow>
           export_loop N tbl pl = Some (Inr (map (export_row_of N) pl))"
proof (induction pl)
  case Nil
  then show ?case by simp
next
  case (Cons p pl)
  then have p: "3 \<le> p" "p \<le> N div 2" by auto
  then have "\<not> N - p \<le> 1" by linarith
  moreover have "export_row N tbl p = Some (Inr (export_row_of N p))"
    using ad p lim by (rule export_row_result)
  moreover have "export_loop N tbl pl = Some (Inr (map (export_row_of N) pl))"
    using Cons by simp
  ultimately show ?case by (simp add: bind_result_def)
qed

lemma export_scan_result:
  assumes "flags_adequate limit tbl" "N - 3 \<le> limit"
  shows "export_scan N tbl = Some (Inr (map (export_row_of N) [3..N div 2]))"
  unfolding export_scan_def using assms by (intro export_loop_result[of limit]) auto

lemma isqrt_nat_bounds: "isqrt_nat n * isqrt_nat n \<le> n \<and> n < (isqrt_nat n + 1) * (isqrt_nat n + 1)"
  by (induction n) auto

lemma isqrt_ge:
  assumes "0 \<le> i" "i * i \<le> limit"
  shows "i \<le> isqrt limit"
proof (rule ccontr)
  assume "\<not> i \<le> isqrt limit"
  then have "isqrt_nat (nat limit) + 1 \<le> nat i" by (simp add: isqrt_def)
  then have "(isqrt_nat (nat limit) + 1) * (isqrt_nat (nat limit) + 1) \<le> nat i * nat i"
    by (intro mult_le_mono)
  then have "nat limit < nat i * nat i" using isqrt_nat_bounds[of "nat limit"] by linarith
  then have "limit < int (nat i * nat i)" by linarith
  then show False using assms by simp
qed

lemma isqrt_square_le: "0 \<le> limit \<Longrightarrow> 0 \<le> m \<Longrightarrow> m \<le> isqrt limit \<Longrightarrow> m * m \<le> limit"
proof -
  assume a: "0 \<le> limit" "0 \<le> m" "m \<le> isqrt limit"
  have "m * m \<le> isqrt limit * isqrt limit" using a by (intro mult_mono) auto
  also have "\<dots> = int (isqrt_nat (nat limit) * isqrt_nat (nat limit))" by (simp add: isqrt_def)
  also have "\<dots> \<le> int (nat limit)" using isqrt_nat_bounds[of "nat limit"] by (intro of_nat_mono) simp
  finally show ?thesis using a by simp
qed

lemma small_prime_factor:
  assumes "2 \<le> n" "\<not> is_prime_number n"
  shows "\<exists>i. is_prime_number i \<and> i dvd n \<and> i * i \<le> n"
proof -
  obtain d where d: "2 \<le> d" "d < n" "d dvd n"
    using assms by (auto simp: is_prime_number_def)
  then obtain e where e: "n = d * e" by (auto elim: dvdE)
  have "0 < d * e" using e assms by simp
  moreover have "0 < d" using d by simp
  ultimately have "0 < e" by (simp add: zero_less_mult_iff)
  moreover have "e \<noteq> 1" using e d by auto
  ultimately have e2: "2 \<le> e" by linarith
  define c where "c = min d e"
  have c: "2 \<le> c" "c dvd n" "c \<le> d" "c \<le> e" using d e e2 by (auto simp: c_def min_def)
  obtain p where p: "is_prime_number p" "p dvd c" "p \<le> c"
    using prime_divisor[OF c(1)] by blast
  have "0 \<le> p" using p(1) prime_ge2[of p] by simp
  then have "p * p \<le> d * e" using p(3) c by (intro mult_mono) auto
  moreover have "p dvd n" using p(2) c(2) by (rule dvd_trans)
  ultimately show ?thesis using p(1) e by auto
qed

lemma prime_iff_no_small_factor:
  assumes "2 \<le> n"
  shows "is_prime_number n \<longleftrightarrow> \<not> (\<exists>i. is_prime_number i \<and> i dvd n \<and> i * i \<le> n)"
proof
  assume pr: "is_prime_number n"
  show "\<not> (\<exists>i. is_prime_number i \<and> i dvd n \<and> i * i \<le> n)"
  proof
    assume "\<exists>i. is_prime_number i \<and> i dvd n \<and> i * i \<le> n"
    then obtain i where i: "is_prime_number i" "i dvd n" "i * i \<le> n" by blast
    then have "i = n" using pr by (intro prime_dvd_prime)
    then have "n * 2 \<le> n * n" using assms by (intro mult_left_mono) auto
    then show False using i(3) \<open>i = n\<close> assms by simp
  qed
next
  assume "\<not> (\<exists>i. is_prime_number i \<and> i dvd n \<and> i * i \<le> n)"
  then show "is_prime_number n" using small_prime_factor[OF assms] by blast
qed

lemma fold_clear:
  assumes "\<forall>j\<in>set js. 0 \<le> j" "0 \<le> n"
  shows "length (fold (\<lambda>j xs. xs[nat j := False]) js xs) = length xs
       \<and> (nat n < length xs \<longrightarrow>
            (fold (\<lambda>j xs. xs[nat j := False]) js xs ! nat n \<longleftrightarrow> n \<notin> set js \<and> xs ! nat n))"
  using assms(1)
proof (induction js arbitrary: xs)
  case Nil
  then show ?case by simp
next
  case (Cons j js)
  have j: "0 \<le> j" using Cons.prems by simp
  have IH: "length (fold (\<lambda>j xs. xs[nat j := False]) js (xs[nat j := False])) = length (xs[nat j := False])
       \<and> (nat n < length (xs[nat j := False]) \<longrightarrow>
            (fold (\<lambda>j xs. xs[nat j := False]) js (xs[nat j := False]) ! nat n
               \<longleftrightarrow> n \<notin> set js \<and> xs[nat j := False] ! nat n))"
    using Cons.prems by (intro Cons.IH) simp
  have "nat j = nat n \<longleftrightarrow> j = n" using j assms(2) by auto
  then show ?case using IH by (auto simp: nth_list_update)
qed

lemma flags_inv_flag:
  assumes "flags_inv limit m tbl" "2 \<le> m" "m \<le> limit"
  shows "tbl ! nat m \<longleftrightarrow> is_prime_number m"
proof -
  have "tbl ! nat m \<longleftrightarrow> \<not> (\<exists>i. 2 \<le> i \<and> i < m \<and> is_prime_number i \<and> i dvd m \<and> i * i \<le> m)"
    using assms by (simp add: flags_inv_def)
  also have "\<dots> \<longleftrightarrow> \<not> (\<exists>i. is_prime_number i \<and> i dvd m \<and> i * i \<le> m)"
  proof -
    have "\<And>i. is_prime_number i \<Longrightarrow> i * i \<le> m \<Longrightarrow> 2 \<le> i \<and> i < m"
    proof -
      fix i assume i: "is_prime_number i" "i * i \<le> m"
      then have i2: "2 \<le> i" by (simp add: prime_ge2)
      then have "i * 2 \<le> i * i" by (intro mult_left_mono) auto
      then show "2 \<le> i \<and> i < m" using i2 i(2) by linarith
    qed
    then show ?thesis by blast
  qed
  also have "\<dots> \<longleftrightarrow> is_prime_number m" using prime_iff_no_small_factor[OF assms(2)] by simp
  finally show ?thesis .
qed

lemma flags_inv_step:
  assumes inv: "flags_inv limit m tbl" and m: "2 \<le> m" "m * m \<le> limit"
  shows "flags_inv limit (m + 1) (sieve_pass m tbl)"
proof -
  have "m * 1 \<le> m * m" using m(1) by (intro mult_left_mono) auto
  then have mle: "m \<le> limit" using m(2) by simp
  have flag: "tbl ! nat m \<longleftrightarrow> is_prime_number m" using inv m(1) mle by (rule flags_inv_flag)
  have len: "length tbl = nat (limit + 1)" using inv by (simp add: flags_inv_def)
  have widen: "\<And>n. (\<exists>i. 2 \<le> i \<and> i < m + 1 \<and> is_prime_number i \<and> i dvd n \<and> i * i \<le> n)
      \<longleftrightarrow> (\<exists>i. 2 \<le> i \<and> i < m \<and> is_prime_number i \<and> i dvd n \<and> i * i \<le> n)
          \<or> (is_prime_number m \<and> m dvd n \<and> m * m \<le> n)"
  proof -
    fix n
    have "\<And>i. i < m + 1 \<longleftrightarrow> i < m \<or> i = m" by auto
    then show "(\<exists>i. 2 \<le> i \<and> i < m + 1 \<and> is_prime_number i \<and> i dvd n \<and> i * i \<le> n)
      \<longleftrightarrow> (\<exists>i. 2 \<le> i \<and> i < m \<and> is_prime_number i \<and> i dvd n \<and> i * i \<le> n)
          \<or> (is_prime_number m \<and> m dvd n \<and> m * m \<le> n)"
      using m(1) by (simp only:) blast
  qed
  show ?thesis
  proof (cases "is_prime_number m")
    case False
    then have "sieve_pass m tbl = tbl" using flag by (simp add: sieve_pass_def)
    then show ?thesis using inv False unfolding flags_inv_def widen by simp
  next
    case True
    let ?js = "py_range (m * m) (int (length tbl)) m"
    have mpos: "0 < m" using m by simp
    have js: "set ?js = {j. m * m \<le> j \<and> j \<le> limit \<and> m dvd j}"
      using set_py_range[OF mpos, of "m * m" "int (length tbl)"] len mle m(1)
      by (auto simp: dvd_diff_left_iff)
    have pass: "sieve_pass m tbl = fold (\<lambda>j xs. xs[nat j := False]) ?js tbl"
      using True flag by (simp add: sieve_pass_def clear_slice_def)
    have jpos: "\<forall>j\<in>set ?js. 0 \<le> j" unfolding js using m(1)
      by (auto intro: order_trans[of 0 "m * m"])
    show ?thesis
      unfolding flags_inv_def pass
    proof (intro conjI allI impI)
      show "length (fold (\<lambda>j xs. xs[nat j := False]) ?js tbl) = nat (limit + 1)"
        using fold_clear[OF jpos, of 0 tbl] len by simp
    next
      fix n assume n: "0 \<le> n \<and> n \<le> limit"
      then have "nat n < length tbl" using len by auto
      then have "fold (\<lambda>j xs. xs[nat j := False]) ?js tbl ! nat n \<longleftrightarrow> n \<notin> set ?js \<and> tbl ! nat n"
        using fold_clear[OF jpos, of n tbl] n by simp
      moreover have "tbl ! nat n \<longleftrightarrow> 2 \<le> n \<and> \<not> (\<exists>i. 2 \<le> i \<and> i < m \<and> is_prime_number i \<and> i dvd n \<and> i * i \<le> n)"
        using inv n by (simp add: flags_inv_def)
      moreover have "n \<in> set ?js \<longleftrightarrow> m dvd n \<and> m * m \<le> n" unfolding js using n by auto
      ultimately show "fold (\<lambda>j xs. xs[nat j := False]) ?js tbl ! nat n \<longleftrightarrow>
          2 \<le> n \<and> \<not> (\<exists>i. 2 \<le> i \<and> i < m + 1 \<and> is_prime_number i \<and> i dvd n \<and> i * i \<le> n)"
        unfolding widen using True by blast
    qed
  qed
qed

lemma flags_inv_init:
  assumes "1 \<le> limit"
  shows "flags_inv limit 2 ((replicate (nat (limit + 1)) True)[0 := False, 1 := False])"
  unfolding flags_inv_def
proof (intro conjI allI impI)
  fix n assume n: "0 \<le> n \<and> n \<le> limit"
  have "nat n = 0 \<or> nat n = 1 \<or> 2 \<le> n" using n by linarith
  then show "(replicate (nat (limit + 1)) True)[0 := False, 1 := False] ! nat n
      \<longleftrightarrow> 2 \<le> n \<and> \<not> (\<exists>i. 2 \<le> i \<and> i < 2 \<and> is_prime_number i \<and> i dvd n \<and> i * i \<le> n)"
    using n assms by (auto simp: nth_list_update)
qed simp

lemma flags_inv_fold:
  assumes "flags_inv limit 2 tbl" "0 \<le> limit" "1 + int k \<le> isqrt limit"
  shows "flags_inv limit (2 + int k) (fold sieve_pass [2..1 + int k] tbl)"
  using assms(3)
proof (induction k)
  case 0
  then show ?case using assms(1) by simp
next
  case (Suc k)
  have "[2..1 + int (Suc k)] = [2..1 + int k] @ [2 + int k]"
    using upto_rec2[of 2 "2 + int k"] by (simp add: add.commute)
  moreover have "flags_inv limit (2 + int k + 1) (sieve_pass (2 + int k) (fold sieve_pass [2..1 + int k] tbl))"
  proof (rule flags_inv_step)
    show "flags_inv limit (2 + int k) (fold sieve_pass [2..1 + int k] tbl)" using Suc by simp
    show "2 \<le> 2 + int k" by simp
    show "(2 + int k) * (2 + int k) \<le> limit"
      using Suc.prems assms(2) by (intro isqrt_square_le) auto
  qed
  ultimately show ?case by (simp add: add.commute add.left_commute)
qed

lemma flags_inv_all:
  assumes "1 \<le> limit"
  shows "\<exists>m. 2 \<le> m \<and> isqrt limit < m
     \<and> flags_inv limit m (fold sieve_pass [2..isqrt limit] ((replicate (nat (limit + 1)) True)[0 := False, 1 := False]))"
proof (cases "2 \<le> isqrt limit")
  case False
  then have "[2..isqrt limit] = []" by simp
  then show ?thesis using flags_inv_init[OF assms] False by (intro exI[of _ 2]) simp
next
  case True
  have e: "1 + int (nat (isqrt limit - 1)) = isqrt limit" "2 + int (nat (isqrt limit - 1)) = isqrt limit + 1"
    using True by auto
  have "0 \<le> limit" using assms by simp
  moreover have "1 + int (nat (isqrt limit - 1)) \<le> isqrt limit" using e by simp
  ultimately have "flags_inv limit (2 + int (nat (isqrt limit - 1)))
      (fold sieve_pass [2..1 + int (nat (isqrt limit - 1))] ((replicate (nat (limit + 1)) True)[0 := False, 1 := False]))"
    by (rule flags_inv_fold[OF flags_inv_init[OF assms]])
  then show ?thesis unfolding e using True by (intro exI[of _ "isqrt limit + 1"]) simp
qed

lemma sieve_result:
  assumes "1 \<le> limit"
  shows "\<exists>tbl. sieve limit = Inr tbl \<and> flags_adequate limit tbl"
proof -
  let ?tbl = "fold sieve_pass [2..isqrt limit] ((replicate (nat (limit + 1)) True)[0 := False, 1 := False])"
  obtain m where m: "2 \<le> m" "isqrt limit < m" "flags_inv limit m ?tbl"
    using flags_inv_all[OF assms] by blast
  have "flags_adequate limit ?tbl"
    unfolding flags_adequate_def
  proof (intro conjI allI impI)
    show "length ?tbl = nat (limit + 1)" using m(3) by (simp add: flags_inv_def)
  next
    fix n assume n: "0 \<le> n \<and> n \<le> limit"
    have t: "?tbl ! nat n \<longleftrightarrow> 2 \<le> n \<and> \<not> (\<exists>i. 2 \<le> i \<and> i < m \<and> is_prime_number i \<and> i dvd n \<and> i * i \<le> n)"
      using m(3) n by (simp add: flags_inv_def)
    show "?tbl ! nat n = is_prime_number n"
    proof (cases "2 \<le> n")
      case False
      then show ?thesis using t by (auto simp: is_prime_number_def)
    next
      case True
      have "\<And>i. is_prime_number i \<Longrightarrow> i * i \<le> n \<Longrightarrow> 2 \<le> i \<and> i < m"
      proof -
        fix i assume i: "is_prime_number i" "i * i \<le> n"
        then have i2: "2 \<le> i" by (simp add: prime_ge2)
        have "i \<le> isqrt limit" using i2 i(2) n by (intro isqrt_ge) auto
        then show "2 \<le> i \<and> i < m" using i2 m(2) by simp
      qed
      then have "(\<exists>i. 2 \<le> i \<and> i < m \<and> is_prime_number i \<and> i dvd n \<and> i * i \<le> n)
          \<longleftrightarrow> (\<exists>i. is_prime_number i \<and> i dvd n \<and> i * i \<le> n)" by blast
      then show ?thesis using t True prime_iff_no_small_factor[OF True] by simp
    qed
  qed
  moreover have "sieve limit = Inr ?tbl" using assms by (simp add: sieve_def)
  ultimately show ?thesis by blast
qed

lemma sieve_radicals_adequate:
  assumes "1 \<le> limit" "limit < 2 ^ 63"
  shows "\<exists>rads. sieve_radicals limit = Inr (rads, {p \<in> {2..limit}. is_prime_number p}) \<and> adequate limit rads"
  using sieve_radicals_result[OF assms] by (simp add: adequate_def)

lemma ball_upto: "(\<forall>d\<in>{a..<b::int}. P d) \<longleftrightarrow> list_all P [a..b - 1]"
  by (auto simp: list_all_iff)

lemma prime_by_trial:
  assumes "2 \<le> n" "list_all (\<lambda>d. \<not> d dvd n) [2..m]" "n < (m + 1) * (m + 1)" "0 \<le> m"
  shows "is_prime_number n"
proof (rule ccontr)
  assume "\<not> is_prime_number n"
  then obtain i where i: "is_prime_number i" "i dvd n" "i * i \<le> n"
    using small_prime_factor[OF assms(1)] by blast
  have i2: "2 \<le> i" using i(1) by (rule prime_ge2)
  have "i \<le> m"
  proof (rule ccontr)
    assume "\<not> i \<le> m"
    then have "m + 1 \<le> i" by simp
    moreover have "0 \<le> m + 1" using assms(4) by simp
    ultimately have "(m + 1) * (m + 1) \<le> i * i" by (intro mult_mono) auto
    then show False using i(3) assms(3) by simp
  qed
  then have "i \<in> set [2..m]" using i2 by simp
  then show False using assms(2) i(2) by (auto simp: list_all_iff)
qed

lemma odd_radical_of_eval: "odd_radical n = Some v \<Longrightarrow> odd_radical_of n = v"
  using odd_radical_result[of n] by simp

lemma rho_value_pos:
  assumes "2 \<le> N" "1 < c"
  shows "0 < rho_value N c"
proof -
  have "0 < ln (real_of_int c)" using assms(2) by simp
  moreover have "0 < ln (real_of_int N)" using assms(1) by simp
  ultimately show ?thesis using assms(2) by (simp add: rho_value_def)
qed

lemma rho_value_sign:
  assumes "2 \<le> N"
  shows "0 \<le> rho_value N c \<and> (rho_value N c = 0 \<longleftrightarrow> c \<le> 1)"
proof (cases "1 < c")
  case True
  then show ?thesis using rho_value_pos[OF assms True] by simp
next
  case False
  then show ?thesis by (simp add: rho_value_def)
qed

lemma goldbach_base:
  assumes "is_prime_number p" "is_prime_number q" "3 \<le> p" "3 \<le> q"
  shows "odd_radical_of p = p" "odd_radical_of q = q" "9 \<le> odd_radical_of p * odd_radical_of q"
proof -
  show p: "odd_radical_of p = p" using assms(1,3) by (rule odd_radical_of_prime)
  show q: "odd_radical_of q = q" using assms(2,4) by (rule odd_radical_of_prime)
  have "3 * 3 \<le> p * q" using assms(3,4) by (intro mult_mono) auto
  then show "9 \<le> odd_radical_of p * odd_radical_of q" using p q by simp
qed

lemma classify_Goldbach: "classify p q = Goldbach \<longleftrightarrow> is_prime_number p \<and> is_prime_number q"
  by (simp add: classify_def)

lemma square_ge_81:
  assumes "9 \<le> (b::int)"
  shows "81 \<le> b * b"
proof -
  have "9 * 9 \<le> b * b" using assms by (intro mult_mono) auto
  then show ?thesis by simp
qed

lemma scan_row_of_goldbach:
  assumes "3 \<le> p" "p \<le> N div 2" "category (scan_row_of N p) = Goldbach"
  shows "is_prime_number p \<and> is_prime_number (N - p)
       \<and> rad_odd_p (scan_row_of N p) = p \<and> rad_odd_q (scan_row_of N p) = N - p
       \<and> 81 \<le> conductor_proxy (scan_row_of N p) \<and> 0 < rho (scan_row_of N p)"
proof -
  have pr: "is_prime_number p" "is_prime_number (N - p)"
    using assms(3) by (simp_all add: scan_row_of_def Let_def classify_Goldbach)
  have q3: "3 \<le> N - p" using assms(1,2) by linarith
  note gb = goldbach_base[OF pr assms(1) q3]
  let ?M = "odd_radical_of (N div 2)"
  let ?b = "odd_radical_of p * odd_radical_of (N - p) * ?M * ?M"
  have "1 \<le> ?M" using odd_radical_of_pos[of "N div 2"] by simp
  then have "1 * 1 \<le> ?M * ?M" by (intro mult_mono) auto
  then have "9 * 1 \<le> (odd_radical_of p * odd_radical_of (N - p)) * (?M * ?M)"
    using gb(3) by (intro mult_mono) auto
  then have "9 \<le> ?b" by (simp add: mult.assoc)
  then have c: "81 \<le> ?b * ?b" by (rule square_ge_81)
  have N: "2 \<le> N" using assms(1,2) by linarith
  have "0 < rho_value N (?b * ?b)" using N c by (intro rho_value_pos) auto
  then show ?thesis using pr gb c by (simp add: scan_row_of_def Let_def)
qed

lemma export_row_of_goldbach:
  assumes "3 \<le> p" "p \<le> N div 2" "category (export_row_of N p) = Goldbach"
  shows "is_prime_number p \<and> is_prime_number (N - p)
       \<and> rad_odd_p (export_row_of N p) = p \<and> rad_odd_q (export_row_of N p) = N - p
       \<and> 81 \<le> conductor_proxy (export_row_of N p) \<and> 0 < rho (export_row_of N p)"
proof -
  have pr: "is_prime_number p" "is_prime_number (N - p)"
    using assms(3) by (simp_all add: export_row_of_def Let_def classify_Goldbach)
  have q3: "3 \<le> N - p" using assms(1,2) by linarith
  note gb = goldbach_base[OF pr assms(1) q3]
  let ?b = "odd_radical_of p * odd_radical_of (N - p)"
  have c: "81 \<le> ?b * ?b" using gb(3) by (rule square_ge_81)
  have N: "2 \<le> N" using assms(1,2) by linarith
  have "0 < rho_value N (?b * ?b)" using N c by (intro rho_value_pos) auto
  then show ?thesis using pr gb c by (simp add: export_row_of_def Let_def power2_eq_square)
qed

lemma bind_result_Inr:
  "bind_result m f = Some (Inr y) \<longleftrightarrow> (\<exists>x. m = Some (Inr x) \<and> f x = Some (Inr y))"
  by (auto simp: bind_result_def split: option.splits sum.splits)

lemma rho_of_sign:
  assumes "rho_of N c = Inr v"
  shows "0 \<le> v \<and> (v = 0 \<longleftrightarrow> c \<le> 1)"
proof (cases "1 < c")
  case False
  then show ?thesis using assms by (simp add: rho_of_def)
next
  case True
  then have N: "2 \<le> N" and v: "v = ln (real_of_int c) / ln (real_of_int N)"
    using assms by (auto simp: rho_of_def split: if_splits)
  have "0 < ln (real_of_int c)" using True by simp
  moreover have "0 < ln (real_of_int N)" using N by simp
  ultimately have "0 < v" unfolding v by simp
  then show ?thesis using True by simp
qed

lemma scan_row_rho:
  assumes "scan_row N rads primes_set p = Some (Inr r)"
  shows "rho_of N (conductor_proxy r) = Inr (rho r)"
  using assms by (auto simp: scan_row_def Let_def bind_result_Inr)

lemma export_row_rho:
  assumes "export_row N tbl p = Some (Inr r)"
  shows "rho_of N (conductor_proxy r) = Inr (rho r)"
  using assms by (auto simp: export_row_def Let_def bind_result_Inr)

lemma scan_loop_mem:
  "scan_loop N rads primes_set pl = Some (Inr rows) \<Longrightarrow> r \<in> set rows \<Longrightarrow>
     \<exists>p\<in>set pl. scan_row N rads primes_set p = Some (Inr r)"
proof (induction pl arbitrary: rows)
  case Nil
  then show ?case by simp
next
  case (Cons p pl)
  show ?case
  proof (cases "N - p \<le> 1")
    case True
    then show ?thesis using Cons by auto
  next
    case False
    then obtain r0 rs where r0: "scan_row N rads primes_set p = Some (Inr r0)"
        "scan_loop N rads primes_set pl = Some (Inr rs)" "rows = r0 # rs"
      using Cons.prems(1) by (auto simp: bind_result_Inr)
    then show ?thesis using Cons.IH[OF r0(2)] Cons.prems(2) by auto
  qed
qed

lemma export_loop_mem:
  "export_loop N tbl pl = Some (Inr rows) \<Longrightarrow> r \<in> set rows \<Longrightarrow>
     \<exists>p\<in>set pl. export_row N tbl p = Some (Inr r)"
proof (induction pl arbitrary: rows)
  case Nil
  then show ?case by simp
next
  case (Cons p pl)
  show ?case
  proof (cases "N - p \<le> 1")
    case True
    then show ?thesis using Cons by auto
  next
    case False
    then obtain r0 rs where r0: "export_row N tbl p = Some (Inr r0)"
        "export_loop N tbl pl = Some (Inr rs)" "rows = r0 # rs"
      using Cons.prems(1) by (auto simp: bind_result_Inr)
    then show ?thesis using Cons.IH[OF r0(2)] Cons.prems(2) by auto
  qed
qed

lemma scan_N_empty: "N < 6 \<Longrightarrow> scan_N N rads primes_set = Some (Inr [])"
  by (simp add: scan_N_def)

lemma export_scan_empty: "N < 6 \<Longrightarrow> export_scan N tbl = Some (Inr [])"
  by (simp add: export_scan_def)

section \<open>The claims\<close>

text \<open>
  C2. The claim: for every \<open>N < 0\<close> and for \<open>N = 0\<close> the decomposition scan fails with
  InvalidArgument. Neither script validates \<open>N\<close>: \<^verbatim>\<open>range(3, N // 2 + 1)\<close> is
  empty, so the scan returns the empty sequence. The counterexample evaluates both
  scans at \<open>N = 0\<close> and at a negative \<open>N\<close>.
\<close>

theorem scan_nonpositive_counterexample:
  "scan_N 0 [1, 1] {} = Some (Inr []) \<and> scan_N (- 4) [1, 1] {} = Some (Inr [])
   \<and> export_scan 0 [False, False] = Some (Inr []) \<and> export_scan (- 4) [False, False] = Some (Inr [])"
  by (simp add: scan_N_def export_scan_def)

text \<open>
  C2, as amended: for every \<open>N \<le> 0\<close>, whatever the tables, both scans return the
  empty sequence and raise nothing.
\<close>

theorem scan_nonpositive_empty:
  "N \<le> 0 \<Longrightarrow> scan_N N rads primes_set = Some (Inr []) \<and> export_scan N is_prime = Some (Inr [])"
  by (simp add: scan_N_empty export_scan_empty)

theorem scan_nonpositive_empty_witness:
  "(- 7::int) \<le> 0 \<and> scan_N (- 7) [1, 1, 2] {2} = Some (Inr [])
   \<and> export_scan (- 7) [False, False, True] = Some (Inr [])"
  using scan_nonpositive_empty[of "- 7" "[1, 1, 2]" "{2}" "[False, False, True]"] by simp

text \<open>
  C8. Every row a scan produces has \<open>rho \<ge> 0\<close>, and \<open>rho = 0\<close> exactly when its
  conductor proxy is at most 1. This holds for both scans and for any tables, since a
  row exists only for some \<open>p\<close> of \<^verbatim>\<open>range(3, N // 2 + 1)\<close>, which makes \<open>N \<ge> 6\<close>.
\<close>

theorem rho_nonnegative_zero_iff:
  assumes "scan_N N rads primes_set = Some (Inr rows) \<or> export_scan N is_prime = Some (Inr rows)"
    and "r \<in> set rows"
  shows "0 \<le> rho r \<and> (rho r = 0 \<longleftrightarrow> conductor_proxy r \<le> 1)"
proof -
  have "rho_of N (conductor_proxy r) = Inr (rho r)"
    using assms(1)
  proof
    assume "scan_N N rads primes_set = Some (Inr rows)"
    then obtain p where "scan_row N rads primes_set p = Some (Inr r)"
      using scan_loop_mem[of N rads primes_set "[3..N div 2]" rows r] assms(2)
      by (auto simp: scan_N_def)
    then show ?thesis by (rule scan_row_rho)
  next
    assume "export_scan N is_prime = Some (Inr rows)"
    then obtain p where "export_row N is_prime p = Some (Inr r)"
      using export_loop_mem[of N is_prime "[3..N div 2]" rows r] assms(2)
      by (auto simp: export_scan_def)
    then show ?thesis by (rule export_row_rho)
  qed
  then show ?thesis by (rule rho_of_sign)
qed

lemma scan_N_6:
  "scan_N 6 [1, 1, 2, 3] {2, 3} =
     Some (Inr [\<lparr>summand_p = 3, summand_q = 3, rad_odd_p = 3, rad_odd_q = 3,
                 conductor_proxy = 6561, rho = ln 6561 / ln 6, category = Goldbach\<rparr>])"
  by (simp add: scan_N_def scan_row_def odd_rad_def py_get_def bind_result_def
      divide_out.simps rho_of_def Let_def)

theorem rho_nonnegative_zero_iff_witness:
  "scan_N 6 [1, 1, 2, 3] {2, 3} =
     Some (Inr [\<lparr>summand_p = 3, summand_q = 3, rad_odd_p = 3, rad_odd_q = 3,
                 conductor_proxy = 6561, rho = ln 6561 / ln 6, category = Goldbach\<rparr>])
   \<and> (0::real) \<le> ln 6561 / ln 6 \<and> ((ln 6561 / ln 6 = (0::real)) \<longleftrightarrow> (6561::int) \<le> 1)"
  using rho_nonnegative_zero_iff[of 6 "[1, 1, 2, 3]" "{2, 3}"
      "[\<lparr>summand_p = 3, summand_q = 3, rad_odd_p = 3, rad_odd_q = 3,
         conductor_proxy = 6561, rho = ln 6561 / ln 6, category = Goldbach\<rparr>]" "[]"
      "\<lparr>summand_p = 3, summand_q = 3, rad_odd_p = 3, rad_odd_q = 3,
         conductor_proxy = 6561, rho = ln 6561 / ln 6, category = Goldbach\<rparr>"]
    scan_N_6
  by simp

end
